theory Spec2Isabelle
  imports Main "HOL-Library.Multiset"
begin

section \<open>Minesweeper rules engine: the board of \<^verbatim>\<open>components.py\<close>\<close>

text \<open>
  The three classes of \<^verbatim>\<open>components.py\<close> are records. Python's integers are
  unbounded, so every \<^verbatim>\<open>int\<close> field is an \<open>int\<close>. The methods of \<^verbatim>\<open>Board\<close>
  mutate the object; here each takes the board and returns the new one. A subscript
  \<^verbatim>\<open>self.cells[i]\<close> raises \<^verbatim>\<open>IndexError\<close> when \<open>i\<close> is out of range, so the methods
  that subscript return \<open>error + Board\<close>. \<^verbatim>\<open>random.shuffle\<close> is the parameter \<open>sh\<close>:
  the list it leaves behind, as a function of the list it was given.
\<close>

subsection \<open>Data model\<close>

record CellState =
  is_mine :: bool
  is_revealed :: bool
  is_flagged :: bool
  adjacent :: int

record Cell =
  col :: int
  row :: int
  state :: CellState

record Board =
  cols :: int
  rows :: int
  num_mines :: int
  cells :: "Cell list"
  mines_placed :: bool
  revealed_count :: int
  game_over :: bool
  win :: bool

datatype error = IndexError

type_synonym shuffle = "(int \<times> int) list \<Rightarrow> (int \<times> int) list"

subsection \<open>Python list primitives\<close>

text \<open>\<^verbatim>\<open>range(n)\<close>: empty when \<open>n \<le> 0\<close>.\<close>

definition py_range :: "int \<Rightarrow> int list" where
  "py_range n = map int [0..<nat n]"

text \<open>
  The position that \<^verbatim>\<open>xs[i]\<close> reads or writes: a negative index counts from the end,
  and an index outside \<open>-len \<dots> len - 1\<close> raises.
\<close>

definition py_index :: "'a list \<Rightarrow> int \<Rightarrow> error + nat" where
  "py_index xs i =
     (if 0 \<le> i \<and> i < int (length xs) then Inr (nat i)
      else if i < 0 \<and> - int (length xs) \<le> i then Inr (nat (int (length xs) + i))
      else Inl IndexError)"

text \<open>The slice \<^verbatim>\<open>xs[:n]\<close>: a negative \<open>n\<close> drops the last \<open>-n\<close> elements.\<close>

definition py_take :: "int \<Rightarrow> 'a list \<Rightarrow> 'a list" where
  "py_take n xs = (if 0 \<le> n then take (nat n) xs else take (length xs - nat (- n)) xs)"

subsection \<open>Construction and coordinates\<close>

definition new_cell :: "int \<Rightarrow> int \<Rightarrow> Cell" where
  "new_cell c r =
     \<lparr>col = c, row = r,
      state = \<lparr>is_mine = False, is_revealed = False, is_flagged = False, adjacent = 0\<rparr>\<rparr>"

text \<open>\<^verbatim>\<open>Board.__init__\<close>: the cells in row-major order, no mines placed yet.\<close>

definition Board_init :: "int \<Rightarrow> int \<Rightarrow> int \<Rightarrow> Board" where
  "Board_init cols0 rows0 mines =
     \<lparr>cols = cols0, rows = rows0, num_mines = mines,
      cells = concat (map (\<lambda>r. map (\<lambda>c. new_cell c r) (py_range cols0)) (py_range rows0)),
      mines_placed = False, revealed_count = 0, game_over = False, win = False\<rparr>"

definition index :: "Board \<Rightarrow> int \<Rightarrow> int \<Rightarrow> int" where
  "index b c r = r * cols b + c"

definition is_inbounds :: "Board \<Rightarrow> int \<Rightarrow> int \<Rightarrow> bool" where
  "is_inbounds b c r \<longleftrightarrow> 0 \<le> c \<and> c < cols b \<and> 0 \<le> r \<and> r < rows b"

definition deltas :: "(int \<times> int) list" where
  "deltas = [(-1, -1), (0, -1), (1, -1), (-1, 0), (1, 0), (-1, 1), (0, 1), (1, 1)]"

definition neighbors :: "Board \<Rightarrow> int \<Rightarrow> int \<Rightarrow> (int \<times> int) list" where
  "neighbors b c r =
     filter (\<lambda>(n_c, n_r). is_inbounds b n_c n_r) (map (\<lambda>(dc, dr). (c + dc, r + dr)) deltas)"

text \<open>
  \<^verbatim>\<open>self.cells[self.index(c, r)]\<close>: the position of the cell object in the list, or the
  \<^verbatim>\<open>IndexError\<close>.
\<close>

definition locate :: "Board \<Rightarrow> int \<Rightarrow> int \<Rightarrow> error + nat" where
  "locate b c r = py_index (cells b) (index b c r)"

text \<open>An assignment to a field of \<^verbatim>\<open>cell.state\<close>, for the cell object at position \<open>k\<close>.\<close>

definition modify_state :: "Board \<Rightarrow> nat \<Rightarrow> (CellState \<Rightarrow> CellState) \<Rightarrow> Board" where
  "modify_state b k f = b\<lparr>cells := (cells b)[k := (cells b ! k)\<lparr>state := f (state (cells b ! k))\<rparr>]\<rparr>"

subsection \<open>Mine placement\<close>

definition all_positions :: "Board \<Rightarrow> (int \<times> int) list" where
  "all_positions b = concat (map (\<lambda>r. map (\<lambda>c. (c, r)) (py_range (cols b))) (py_range (rows b)))"

text \<open>The loop \<^verbatim>\<open>for c, r in mine_positions\<close>.\<close>

fun mark_mines :: "Board \<Rightarrow> (int \<times> int) list \<Rightarrow> error + Board" where
  "mark_mines b [] = Inr b"
| "mark_mines b ((c, r) # ps) =
     (case locate b c r of
        Inl e \<Rightarrow> Inl e
      | Inr k \<Rightarrow> mark_mines (modify_state b k (\<lambda>s. s\<lparr>is_mine := True\<rparr>)) ps)"

text \<open>The inner loop \<^verbatim>\<open>for nc, nr in self.neighbors(c, r)\<close>, with its counter.\<close>

fun count_mines :: "Board \<Rightarrow> (int \<times> int) list \<Rightarrow> int \<Rightarrow> error + int" where
  "count_mines b [] mine_count = Inr mine_count"
| "count_mines b ((nc, nr) # ps) mine_count =
     (case locate b nc nr of
        Inl e \<Rightarrow> Inl e
      | Inr k \<Rightarrow>
          count_mines b ps (if is_mine (state (cells b ! k)) then mine_count + 1 else mine_count))"

text \<open>The two outer loops over rows and columns, which visit the positions in row-major order.\<close>

fun compute_adjacent :: "Board \<Rightarrow> (int \<times> int) list \<Rightarrow> error + Board" where
  "compute_adjacent b [] = Inr b"
| "compute_adjacent b ((c, r) # ps) =
     (case locate b c r of
        Inl e \<Rightarrow> Inl e
      | Inr k \<Rightarrow>
          if \<not> is_mine (state (cells b ! k)) then
            (case count_mines b (neighbors b c r) 0 of
               Inl e \<Rightarrow> Inl e
             | Inr mine_count \<Rightarrow>
                 compute_adjacent (modify_state b k (\<lambda>s. s\<lparr>adjacent := mine_count\<rparr>)) ps)
          else compute_adjacent b ps)"

definition place_mines :: "shuffle \<Rightarrow> Board \<Rightarrow> int \<Rightarrow> int \<Rightarrow> error + Board" where
  "place_mines sh b safe_col safe_row =
     (let forbidden = insert (safe_col, safe_row) (set (neighbors b safe_col safe_row));
          pool = filter (\<lambda>p. p \<notin> forbidden) (all_positions b);
          mine_positions = py_take (num_mines b) (sh pool)
      in case mark_mines b mine_positions of
           Inl e \<Rightarrow> Inl e
         | Inr b1 \<Rightarrow>
             (case compute_adjacent b1 (all_positions b1) of
                Inl e \<Rightarrow> Inl e
              | Inr b2 \<Rightarrow> Inr (b2\<lparr>mines_placed := True\<rparr>)))"

subsection \<open>Loss sweep, win check, flags\<close>

definition reveal_all_mines :: "Board \<Rightarrow> Board" where
  "reveal_all_mines b =
     b\<lparr>cells := map (\<lambda>cell. if is_mine (state cell)
                             then cell\<lparr>state := (state cell)\<lparr>is_revealed := True\<rparr>\<rparr>
                             else cell) (cells b)\<rparr>"

definition check_win :: "Board \<Rightarrow> Board" where
  "check_win b =
     (let total_cells = cols b * rows b
      in if revealed_count b = total_cells - num_mines b \<and> \<not> game_over b
         then b\<lparr>win := True,
                 cells := map (\<lambda>cell. if \<not> is_revealed (state cell) \<and> \<not> is_mine (state cell)
                                       then cell\<lparr>state := (state cell)\<lparr>is_revealed := True\<rparr>\<rparr>
                                       else cell) (cells b)\<rparr>
         else b)"

definition toggle_flag :: "Board \<Rightarrow> int \<Rightarrow> int \<Rightarrow> error + Board" where
  "toggle_flag b c r =
     (if \<not> is_inbounds b c r then Inr b
      else case locate b c r of
             Inl e \<Rightarrow> Inl e
           | Inr k \<Rightarrow>
               if is_revealed (state (cells b ! k)) then Inr b
               else Inr (check_win (modify_state b k (\<lambda>s. s\<lparr>is_flagged := \<not> is_flagged s\<rparr>))))"

definition flagged_count :: "Board \<Rightarrow> int" where
  "flagged_count b =
     fold (\<lambda>cell count. if is_flagged (state cell) then count + 1 else count) (cells b) 0"

subsection \<open>Reveal\<close>

text \<open>
  \<^verbatim>\<open>Board.reveal\<close> calls itself on every neighbour of a cell with no adjacent mine;
  \<open>reveal_each\<close> is that \<^verbatim>\<open>for\<close> loop, threading the board through the calls. The
  interpreter's recursion limit is not modelled: the call stack is taken as unbounded.
\<close>

function reveal :: "shuffle \<Rightarrow> Board \<Rightarrow> int \<Rightarrow> int \<Rightarrow> error + Board"
  and reveal_each :: "shuffle \<Rightarrow> Board \<Rightarrow> (int \<times> int) list \<Rightarrow> error + Board"
where
  "reveal sh b c r =
     (if \<not> is_inbounds b c r then Inr b
      else case (if \<not> mines_placed b then place_mines sh b c r else Inr b) of
             Inl e \<Rightarrow> Inl e
           | Inr b1 \<Rightarrow>
               (case locate b1 c r of
                  Inl e \<Rightarrow> Inl e
                | Inr k \<Rightarrow>
                    if is_revealed (state (cells b1 ! k)) \<or> is_flagged (state (cells b1 ! k))
                    then Inr b1
                    else
                      let b2 = (modify_state b1 k (\<lambda>s. s\<lparr>is_revealed := True\<rparr>))
                                 \<lparr>revealed_count := revealed_count b1 + 1\<rparr>
                      in if is_mine (state (cells b2 ! k))
                         then Inr (reveal_all_mines (b2\<lparr>game_over := True\<rparr>))
                         else
                           (case (if adjacent (state (cells b2 ! k)) = 0
                                  then reveal_each sh b2 (neighbors b2 c r)
                                  else Inr b2) of
                              Inl e \<Rightarrow> Inl e
                            | Inr b3 \<Rightarrow> Inr (check_win b3))))"
| "reveal_each sh b [] = Inr b"
| "reveal_each sh b ((nc, nr) # ps) =
     (case reveal sh b nc nr of
        Inl e \<Rightarrow> Inl e
      | Inr b' \<Rightarrow> reveal_each sh b' ps)"
  by pat_completeness auto

subsection \<open>Sequences of calls\<close>

text \<open>The two mutators the presentation layer calls, and a run of them from a board.\<close>

datatype action = Reveal int int | ToggleFlag int int

fun step :: "shuffle \<Rightarrow> Board \<Rightarrow> action \<Rightarrow> error + Board" where
  "step sh b (Reveal c r) = reveal sh b c r"
| "step sh b (ToggleFlag c r) = toggle_flag b c r"

fun run :: "shuffle \<Rightarrow> Board \<Rightarrow> action list \<Rightarrow> error + Board" where
  "run sh b [] = Inr b"
| "run sh b (a # as) = (case step sh b a of Inl e \<Rightarrow> Inl e | Inr b' \<Rightarrow> run sh b' as)"

section \<open>Vocabulary of the claims\<close>

subsection \<open>Positions in the cell list, and the fields of the cells\<close>

text \<open>
  \<^verbatim>\<open>Board.__init__\<close> lays the cells out in row-major order and no method resizes the
  list: \<open>layout\<close>. On such a board the cell of an in-bounds coordinate \<open>p\<close> is at
  position \<open>pos b p\<close> of the list.
\<close>

definition layout :: "Board \<Rightarrow> bool" where
  "layout b \<longleftrightarrow> length (cells b) = nat (cols b) * nat (rows b)"

definition pos :: "Board \<Rightarrow> int \<times> int \<Rightarrow> nat" where
  "pos b p = nat (index b (fst p) (snd p))"

definition inb :: "Board \<Rightarrow> int \<times> int \<Rightarrow> bool" where
  "inb b p \<longleftrightarrow> is_inbounds b (fst p) (snd p)"

text \<open>
  The cell state at a coordinate, and the four fields of the cell states as lists, to say
  which fields a call leaves alone.
\<close>

definition cell_state :: "Board \<Rightarrow> int \<times> int \<Rightarrow> CellState" where
  "cell_state b p = state (cells b ! pos b p)"

definition revealed_of :: "Board \<Rightarrow> bool list" where
  "revealed_of b = map (\<lambda>cell. is_revealed (state cell)) (cells b)"

definition mines_of :: "Board \<Rightarrow> bool list" where
  "mines_of b = map (\<lambda>cell. is_mine (state cell)) (cells b)"

definition flags_of :: "Board \<Rightarrow> bool list" where
  "flags_of b = map (\<lambda>cell. is_flagged (state cell)) (cells b)"

definition adjacents_of :: "Board \<Rightarrow> int list" where
  "adjacents_of b = map (\<lambda>cell. adjacent (state cell)) (cells b)"

text \<open>The number of cells not yet revealed: the measure of the flood fill.\<close>

definition unrevealed :: "Board \<Rightarrow> nat" where
  "unrevealed b = length (filter Not (revealed_of b))"

text \<open>The number of cells that hold a mine, and the number of revealed cells.\<close>

definition mine_total :: "Board \<Rightarrow> nat" where
  "mine_total b = length (filter (\<lambda>cell. is_mine (state cell)) (cells b))"

definition revealed_total :: "Board \<Rightarrow> nat" where
  "revealed_total b = length (filter (\<lambda>cell. is_revealed (state cell)) (cells b))"

text \<open>The mines among the neighbours of a coordinate, counted again from the board.\<close>

definition mines_around :: "Board \<Rightarrow> int \<times> int \<Rightarrow> nat" where
  "mines_around b p =
     length (filter (\<lambda>q. is_mine (cell_state b q)) (neighbors b (fst p) (snd p)))"

subsection \<open>Relations between an earlier and a later board\<close>

text \<open>Every cell revealed on \<open>b\<close> is revealed on \<open>b'\<close>.\<close>

definition grows :: "Board \<Rightarrow> Board \<Rightarrow> bool" where
  "grows b b' \<longleftrightarrow> list_all2 (\<longrightarrow>) (revealed_of b) (revealed_of b')"

text \<open>Every field of the board but the cells.\<close>

definition keeps :: "Board \<Rightarrow> Board \<Rightarrow> bool" where
  "keeps b b' \<longleftrightarrow>
     cols b' = cols b \<and> rows b' = rows b \<and> num_mines b' = num_mines b \<and>
     mines_placed b' = mines_placed b \<and> revealed_count b' = revealed_count b \<and>
     game_over b' = game_over b \<and> win b' = win b \<and> length (cells b') = length (cells b)"

text \<open>The mine layout of two boards is the same: dimensions, mine count, mines, adjacency.\<close>

definition same_mines :: "Board \<Rightarrow> Board \<Rightarrow> bool" where
  "same_mines b b' \<longleftrightarrow>
     cols b' = cols b \<and> rows b' = rows b \<and> num_mines b' = num_mines b \<and>
     mines_of b' = mines_of b \<and> adjacents_of b' = adjacents_of b"

text \<open>
  From a board to a later one: dimensions and mine count stay, no cell is hidden again, the
  counter does not decrease, \<open>game_over\<close> and \<open>win\<close> are never reset, \<open>win\<close> is not touched
  once \<open>game_over\<close> is set, and once the mines are placed the mine layout stays.
\<close>

definition progress :: "Board \<Rightarrow> Board \<Rightarrow> bool" where
  "progress b b' \<longleftrightarrow>
     cols b' = cols b \<and> rows b' = rows b \<and> num_mines b' = num_mines b \<and>
     length (cells b') = length (cells b) \<and> grows b b' \<and>
     revealed_count b \<le> revealed_count b' \<and>
     (game_over b \<longrightarrow> game_over b') \<and> (win b \<longrightarrow> win b') \<and>
     (game_over b \<longrightarrow> win b' = win b) \<and>
     (mines_placed b \<longrightarrow> mines_placed b' \<and> same_mines b b')"

text \<open>
  A later board of the same game, cell by cell: the same mines, adjacency counts and flags,
  and every cell that was revealed still revealed.
\<close>

definition later :: "Board \<Rightarrow> Board \<Rightarrow> bool" where
  "later b b' \<longleftrightarrow>
     inb b' = inb b \<and> neighbors b' = neighbors b \<and>
     (\<forall>q. inb b q \<longrightarrow>
        is_mine (cell_state b' q) = is_mine (cell_state b q) \<and>
        adjacent (cell_state b' q) = adjacent (cell_state b q) \<and>
        is_flagged (cell_state b' q) = is_flagged (cell_state b q) \<and>
        (is_revealed (cell_state b q) \<longrightarrow> is_revealed (cell_state b' q)))"

subsection \<open>Single steps of the methods\<close>

text \<open>
  The two assignments \<^verbatim>\<open>cell.state.is_revealed = True\<close> and \<^verbatim>\<open>self.revealed_count += 1\<close>
  of \<^verbatim>\<open>reveal\<close>, for the cell at position \<open>k\<close>.
\<close>

definition mark_revealed :: "Board \<Rightarrow> nat \<Rightarrow> Board" where
  "mark_revealed b k =
     (modify_state b k (\<lambda>s. s\<lparr>is_revealed := True\<rparr>))\<lparr>revealed_count := revealed_count b + 1\<rparr>"

text \<open>The assignment \<^verbatim>\<open>cell.state.is_flagged = not cell.state.is_flagged\<close>.\<close>

definition flip_flag :: "Board \<Rightarrow> nat \<Rightarrow> Board" where
  "flip_flag b k = modify_state b k (\<lambda>s. s\<lparr>is_flagged := \<not> is_flagged s\<rparr>)"

text \<open>The positions \<^verbatim>\<open>place_mines\<close> picks: the first \<open>num_mines\<close> of the shuffled pool.\<close>

definition mine_pool :: "Board \<Rightarrow> int \<Rightarrow> int \<Rightarrow> (int \<times> int) list" where
  "mine_pool b c r =
     filter (\<lambda>p. p \<notin> insert (c, r) (set (neighbors b c r))) (all_positions b)"

definition mine_positions :: "shuffle \<Rightarrow> Board \<Rightarrow> int \<Rightarrow> int \<Rightarrow> (int \<times> int) list" where
  "mine_positions sh b c r = py_take (num_mines b) (sh (mine_pool b c r))"

subsection \<open>Invariants\<close>

text \<open>Every cell that holds no mine carries the number of mines around it.\<close>

definition adjacency_ok :: "Board \<Rightarrow> bool" where
  "adjacency_ok b \<longleftrightarrow>
     (\<forall>q\<in>set (all_positions b).
        \<not> is_mine (cell_state b q) \<longrightarrow> adjacent (cell_state b q) = int (mines_around b q))"

text \<open>No cell that holds a mine is revealed.\<close>

definition no_mine_revealed :: "Board \<Rightarrow> bool" where
  "no_mine_revealed b \<longleftrightarrow>
     (\<forall>k<length (cells b). is_mine (state (cells b ! k)) \<longrightarrow> \<not> is_revealed (state (cells b ! k)))"

text \<open>
  What holds of every board that \<^verbatim>\<open>reveal\<close> and \<^verbatim>\<open>toggle_flag\<close> can produce from a board
  constructed with \<open>0 \<le> mines \<le> cols * rows - 9\<close>: the cell list has the row-major
  layout; before placement nothing is a mine or revealed; after placement there are
  \<open>num_mines\<close> mines with correct adjacency counts; and until the game is lost the counter
  counts the revealed cells and no mine is revealed; after that it may fall behind.
\<close>

definition board_inv :: "Board \<Rightarrow> bool" where
  "board_inv b \<longleftrightarrow>
     layout b \<and> 0 \<le> num_mines b \<and> num_mines b \<le> cols b * rows b - 9 \<and>
     (if mines_placed b then int (mine_total b) = num_mines b \<and> adjacency_ok b
      else mine_total b = 0 \<and> revealed_total b = 0 \<and> revealed_count b = 0 \<and>
           \<not> game_over b \<and> \<not> win b) \<and>
     (\<not> game_over b \<longrightarrow> revealed_count b = int (revealed_total b) \<and> no_mine_revealed b) \<and>
     revealed_count b \<le> int (revealed_total b)"

text \<open>
  When a call of \<^verbatim>\<open>reveal\<close> or \<^verbatim>\<open>toggle_flag\<close> has returned, the win check has nothing
  left to do: if its condition holds, \<open>win\<close> is already set.
\<close>

definition settled :: "Board \<Rightarrow> bool" where
  "settled b \<longleftrightarrow>
     (revealed_count b = cols b * rows b - num_mines b \<and> \<not> game_over b \<longrightarrow> win b)"

text \<open>The boards between two calls.\<close>

definition between_calls :: "Board \<Rightarrow> bool" where
  "between_calls b \<longleftrightarrow> board_inv b \<and> settled b"

text \<open>The part of the invariant that needs no condition on the configuration.\<close>

definition placed_ok :: "Board \<Rightarrow> bool" where
  "placed_ok b \<longleftrightarrow> layout b \<and> (mines_placed b \<longrightarrow> adjacency_ok b)"

subsection \<open>The region a reveal floods\<close>




subsection \<open>Shuffles and boards for the examples\<close>

text \<open>
  Outcomes of the shuffle, for the examples: the pool as it is; reversed (\<open>rev\<close>); and
  ordered by distance from a column, which puts the mines in that column.
\<close>

definition keep_order :: shuffle where
  "keep_order xs = xs"


text \<open>
  The boards of the examples, after a run of calls: ten columns and one row with one mine,
  which \<open>keep_order\<close> puts at column 2 and \<open>rev\<close> at column 9 after a first click on
  column 0; eleven columns and one row with two mines, at columns 2 and 3; and seven columns
  and three rows with three mines, which fill column 3.
\<close>

abbreviation row10 :: "action list \<Rightarrow> Board" where
  "row10 as \<equiv> projr (run keep_order (Board_init 10 1 1) as)"

abbreviation row10_rev :: "action list \<Rightarrow> Board" where
  "row10_rev as \<equiv> projr (run rev (Board_init 10 1 1) as)"

abbreviation row11 :: "action list \<Rightarrow> Board" where
  "row11 as \<equiv> projr (run keep_order (Board_init 11 1 2) as)"


section \<open>Termination, invariants and the flood fill\<close>

subsection \<open>Termination of the flood fill\<close>

text \<open>
  A recursive call is made only after a cell that was not revealed has been marked revealed,
  and no call ever hides a cell again, so the number of unrevealed cells bounds the depth.
\<close>

lemma locate_bound: "locate b c r = Inr k \<Longrightarrow> k < length (cells b)"
  by (auto simp: locate_def py_index_def Let_def split: if_splits)

lemma revealed_of_modify_state:
  "revealed_of (modify_state b k f) = (revealed_of b)[k := is_revealed (f (state (cells b ! k)))]"
  by (simp add: revealed_of_def modify_state_def map_update)

lemma revealed_of_modify_state_keep:
  "(\<And>s. is_revealed (f s) = is_revealed s) \<Longrightarrow> revealed_of (modify_state b k f) = revealed_of b"
  by (cases "k < length (cells b)")
     (simp_all add: revealed_of_def modify_state_def map_update list_update_same_conv list_update_beyond)

lemma revealed_of_mark_mines: "mark_mines b ps = Inr b' \<Longrightarrow> revealed_of b' = revealed_of b"
proof (induction b ps rule: mark_mines.induct)
  case (1 b)
  then show ?case by simp
next
  case (2 b c r ps)
  then show ?case
    by (auto split: sum.splits simp: revealed_of_modify_state_keep)
qed

lemma revealed_of_compute_adjacent:
  "compute_adjacent b ps = Inr b' \<Longrightarrow> revealed_of b' = revealed_of b"
proof (induction b ps rule: compute_adjacent.induct)
  case (1 b)
  then show ?case by simp
next
  case (2 b c r ps)
  then show ?case
    by (auto split: sum.splits if_splits simp: revealed_of_modify_state_keep)
qed

lemma revealed_of_place_mines: "place_mines sh b c r = Inr b' \<Longrightarrow> revealed_of b' = revealed_of b"
  unfolding place_mines_def Let_def
  by (auto split: sum.splits dest!: revealed_of_mark_mines revealed_of_compute_adjacent simp: revealed_of_def)

lemma filter_Not_update_less:
  "k < length xs \<Longrightarrow> \<not> xs ! k \<Longrightarrow> length (filter Not (xs[k := True])) < length (filter Not xs)"
proof (induction xs arbitrary: k)
  case Nil
  then show ?case by simp
next
  case (Cons x xs)
  then show ?case by (cases k) auto
qed

lemma filter_Not_mono:
  "list_all2 (\<longrightarrow>) xs ys \<Longrightarrow> length (filter Not ys) \<le> length (filter Not xs)"
  by (induction rule: list_all2_induct) auto

lemma grows_refl: "grows b b"
  by (simp add: grows_def list_all2_same)

lemma grows_trans: "grows a b \<Longrightarrow> grows b c \<Longrightarrow> grows a c"
  unfolding grows_def by (erule (1) list_all2_trans[rotated]) simp

lemma grows_unrevealed: "grows b b' \<Longrightarrow> unrevealed b' \<le> unrevealed b"
  by (simp add: grows_def unrevealed_def filter_Not_mono)

lemma grows_eq: "revealed_of b' = revealed_of b \<Longrightarrow> grows b b'"
  by (simp add: grows_def list_all2_same)

lemma grows_check_win: "grows b (check_win b)"
  by (simp add: grows_def check_win_def Let_def revealed_of_def list_all2_map1 list_all2_map2 list_all2_same)

lemma grows_reveal_all_mines: "grows b (reveal_all_mines b)"
  by (simp add: grows_def reveal_all_mines_def revealed_of_def list_all2_map1 list_all2_map2 list_all2_same)

lemma grows_update: "grows b (modify_state b k (\<lambda>s. s\<lparr>is_revealed := True\<rparr>))"
  unfolding grows_def revealed_of_modify_state list_all2_conv_all_nth
proof (intro conjI allI impI)
  fix i assume "i < length (revealed_of b)" "revealed_of b ! i"
  then show "(revealed_of b)[k := is_revealed (state (cells b ! k)\<lparr>is_revealed := True\<rparr>)] ! i"
    by (cases "k = i") simp_all
qed simp

lemma revealed_of_fields [simp]:
  "revealed_of (b\<lparr>revealed_count := n\<rparr>) = revealed_of b"
  "revealed_of (b\<lparr>game_over := g\<rparr>) = revealed_of b"
  by (simp_all add: revealed_of_def)

lemma grows_reveal:
  "reveal_reveal_each_dom (Inl (sh, b, c, r)) \<Longrightarrow> reveal sh b c r = Inr b' \<Longrightarrow> grows b b'"
  "reveal_reveal_each_dom (Inr (sh, b, ps)) \<Longrightarrow> reveal_each sh b ps = Inr b' \<Longrightarrow> grows b b'"
proof (induction sh b c r and sh b ps arbitrary: b' and b' rule: reveal_reveal_each.pinduct)
  case (1 sh b c r)
  note dom = "1.hyps"
  note IH = "1.IH"
  note res = "1.prems"[unfolded reveal.psimps[OF dom]]
  show ?case
  proof (cases "is_inbounds b c r")
    case False
    with res show ?thesis by (simp add: grows_refl)
  next
    case inb: True
    from res inb obtain b1 where
      b1: "(if \<not> mines_placed b then place_mines sh b c r else Inr b) = Inr b1"
      by (auto split: sum.splits)
    then have g1: "grows b b1"
      by (auto split: if_splits intro: grows_refl grows_eq revealed_of_place_mines)
    from res inb b1 obtain k where k: "locate b1 c r = Inr k"
      by (auto split: sum.splits)
    define b2 where "b2 = (modify_state b1 k (\<lambda>s. s\<lparr>is_revealed := True\<rparr>))
                                 \<lparr>revealed_count := revealed_count b1 + 1\<rparr>"
    have g2: "grows b1 b2"
      using grows_update[of b1 k] by (simp add: b2_def grows_def)
    show ?thesis
    proof (cases "is_revealed (state (cells b1 ! k)) \<or> is_flagged (state (cells b1 ! k))")
      case True
      with res inb b1 k have "b' = b1" by simp
      with g1 show ?thesis by simp
    next
      case fresh: False
      show ?thesis
      proof (cases "is_mine (state (cells b2 ! k))")
        case True
        with res inb b1 k fresh have "b' = reveal_all_mines (b2\<lparr>game_over := True\<rparr>)"
          by (simp add: b2_def Let_def)
        then have "grows b2 b'"
          using grows_reveal_all_mines[of "b2\<lparr>game_over := True\<rparr>"] by (simp add: grows_def)
        with g1 g2 show ?thesis by (blast intro: grows_trans)
      next
        case safe: False
        from res inb b1 k fresh safe
        have "(case (if adjacent (state (cells b2 ! k)) = 0
                     then reveal_each sh b2 (neighbors b2 c r) else Inr b2) of
                 Inl e \<Rightarrow> Inl e | Inr b3 \<Rightarrow> Inr (check_win b3)) = Inr b'"
          unfolding b2_def by (simp add: Let_def)
        then obtain b3 where
          b3: "(if adjacent (state (cells b2 ! k)) = 0
                then reveal_each sh b2 (neighbors b2 c r) else Inr b2) = Inr b3"
          and b': "b' = check_win b3"
          by (auto split: sum.splits)
        have "grows b2 b3"
        proof (cases "adjacent (state (cells b2 ! k)) = 0")
          case True
          with b3 have "reveal_each sh b2 (neighbors b2 c r) = Inr b3" by simp
          moreover have "\<not> \<not> is_inbounds b c r" using inb by simp
          ultimately show ?thesis
            using IH[OF _ b1 k fresh b2_def safe True] by blast
        next
          case False
          with b3 show ?thesis by (simp add: grows_refl)
        qed
        with g1 g2 b' show ?thesis by (blast intro: grows_trans grows_check_win)
      qed
    qed
  qed
next
  case (2 sh b)
  then show ?case by (simp add: reveal_each.psimps grows_refl)
next
  case (3 sh b nc nr ps)
  then show ?case
    by (auto simp: reveal_each.psimps split: sum.splits intro: grows_trans)
qed

termination reveal
proof (relation "inv_image (less_than <*lex*> less_than)
    (\<lambda>x. case x of Inl (sh, b, c, r) \<Rightarrow> (unrevealed b, 0)
                 | Inr (sh, b, ps) \<Rightarrow> (unrevealed b, Suc (length ps)))", goal_cases)
  case 1
  show ?case by (intro wf_inv_image wf_lex_prod wf_less_than)
next
  case (2 sh b c r b1 k b2)
  from 2 have e: "revealed_of b1 = revealed_of b"
    by (auto split: if_splits dest: revealed_of_place_mines)
  from 2 have kl: "k < length (revealed_of b1)"
    by (auto dest: locate_bound simp: revealed_of_def)
  with 2 have nr: "\<not> revealed_of b1 ! k"
    by (simp add: revealed_of_def)
  from 2 have "revealed_of b2 = (revealed_of b1)[k := True]"
    by (simp add: revealed_of_modify_state)
  with filter_Not_update_less[OF kl nr] e have "unrevealed b2 < unrevealed b"
    by (simp add: unrevealed_def)
  then show ?case by simp
next
  case (3 sh b nc nr ps)
  show ?case by simp
next
  case (4 sh b nc nr ps b')
  then show ?case
    using grows_unrevealed[OF grows_reveal(1)] by (auto simp: le_less)
qed

subsection \<open>Coordinates and the row-major layout\<close>

lemma index_range:
  assumes "is_inbounds b c r"
  shows "0 \<le> index b c r" and "index b c r < cols b * rows b"
proof -
  from assms have c: "0 \<le> c" "c < cols b" and r: "0 \<le> r" "r < rows b"
    by (simp_all add: is_inbounds_def)
  then show "0 \<le> index b c r" by (simp add: index_def)
  from r have "r + 1 \<le> rows b" by simp
  then have "(r + 1) * cols b \<le> rows b * cols b"
    using c by (intro mult_right_mono) auto
  then show "index b c r < cols b * rows b"
    using c by (simp add: index_def algebra_simps)
qed

lemma pos_less:
  assumes "layout b" "inb b p"
  shows "pos b p < length (cells b)"
proof -
  from assms(2) have i: "is_inbounds b (fst p) (snd p)" by (simp add: inb_def)
  then have "0 \<le> cols b" "0 \<le> rows b" by (auto simp: is_inbounds_def)
  then have "int (length (cells b)) = cols b * rows b"
    using assms(1) by (simp add: layout_def)
  with index_range[OF i] show ?thesis by (simp add: pos_def)
qed

lemma locate_pos:
  assumes "layout b" "is_inbounds b c r"
  shows "locate b c r = Inr (pos b (c, r))"
proof -
  from assms have "pos b (c, r) < length (cells b)" by (simp add: pos_less inb_def)
  moreover have "0 \<le> index b c r" by (rule index_range[OF assms(2)])
  ultimately show ?thesis
    by (simp add: locate_def py_index_def pos_def Let_def)
qed

lemma pos_inj:
  assumes "inb b p" "inb b q" "pos b p = pos b q"
  shows "p = q"
proof -
  obtain c r c' r' where p: "p = (c, r)" and q: "q = (c', r')" by (cases p, cases q) auto
  from assms p q have b: "0 \<le> c" "c < cols b" "0 \<le> c'" "c' < cols b" "0 \<le> r" "0 \<le> r'"
    by (simp_all add: inb_def is_inbounds_def)
  then have "r * cols b + c = r' * cols b + c'"
    using assms(3) p q by (simp add: pos_def index_def nat_eq_iff)
  then have "(r * cols b + c) div cols b = (r' * cols b + c') div cols b"
    and "(r * cols b + c) mod cols b = (r' * cols b + c') mod cols b" by simp_all
  with b show ?thesis by (simp add: p q)
qed

lemma set_py_range: "set (py_range n) = {i. 0 \<le> i \<and> i < n}"
proof -
  have "i \<in> int ` {0..<nat n} \<longleftrightarrow> 0 \<le> i \<and> i < n" for i
    by (auto simp: image_iff intro: bexI[of _ "nat i"])
  then show ?thesis by (auto simp: py_range_def)
qed

lemma distinct_py_range: "distinct (py_range n)"
  by (simp add: py_range_def distinct_map inj_on_def)

lemma length_py_range: "length (py_range n) = nat n"
  by (simp add: py_range_def)

lemma set_all_positions: "set (all_positions b) = {p. inb b p}"
  by (auto simp: all_positions_def set_py_range inb_def is_inbounds_def)

lemma all_positions_product:
  "all_positions b = map prod.swap (List.product (py_range (rows b)) (py_range (cols b)))"
  by (simp add: all_positions_def product_concat_map map_concat comp_def)

lemma distinct_all_positions: "distinct (all_positions b)"
  by (simp add: all_positions_product distinct_map distinct_product distinct_py_range)

lemma length_all_positions: "length (all_positions b) = nat (cols b) * nat (rows b)"
  by (simp add: all_positions_def length_concat comp_def length_py_range sum_list_triv)

lemma pos_surj:
  assumes "layout b" "k < length (cells b)"
  shows "\<exists>p. inb b p \<and> pos b p = k"
proof -
  have "inj_on (pos b) (set (all_positions b))"
    by (auto simp: inj_on_def set_all_positions dest: pos_inj)
  then have "card (pos b ` set (all_positions b)) = card (set (all_positions b))"
    by (rule card_image)
  also have "\<dots> = length (cells b)"
    using assms(1) by (simp add: distinct_card distinct_all_positions length_all_positions layout_def)
  finally have "card (pos b ` set (all_positions b)) = length (cells b)" .
  moreover have "pos b ` set (all_positions b) \<subseteq> {..<length (cells b)}"
    using assms(1) by (auto simp: set_all_positions pos_less)
  ultimately have "pos b ` set (all_positions b) = {..<length (cells b)}"
    by (intro card_subset_eq) auto
  with assms(2) have "k \<in> pos b ` set (all_positions b)" by simp
  then show ?thesis by (auto simp: set_all_positions)
qed

subsection \<open>Cell states by coordinate, and what the placement loops do\<close>

lemma keeps_refl: "keeps b b"
  by (simp add: keeps_def)

lemma keeps_trans: "keeps a b \<Longrightarrow> keeps b c \<Longrightarrow> keeps a c"
  by (simp add: keeps_def)

lemma modify_state_fields [simp]:
  "cols (modify_state b k f) = cols b"
  "rows (modify_state b k f) = rows b"
  "num_mines (modify_state b k f) = num_mines b"
  "mines_placed (modify_state b k f) = mines_placed b"
  "revealed_count (modify_state b k f) = revealed_count b"
  "game_over (modify_state b k f) = game_over b"
  "win (modify_state b k f) = win b"
  "length (cells (modify_state b k f)) = length (cells b)"
  by (simp_all add: modify_state_def)

lemma keeps_modify_state: "keeps b (modify_state b k f)"
  by (simp add: keeps_def)

lemma state_modify_state:
  "k < length (cells b) \<Longrightarrow>
   state (cells (modify_state b k f) ! j) = (if j = k then f (state (cells b ! k)) else state (cells b ! j))"
  by (simp add: modify_state_def nth_list_update)

lemma same_dims:
  assumes "cols b' = cols b" "rows b' = rows b"
  shows "index b' = index b" "is_inbounds b' = is_inbounds b" "neighbors b' = neighbors b"
    "all_positions b' = all_positions b" "pos b' = pos b" "inb b' = inb b"
  using assms
  by (simp_all add: fun_eq_iff index_def is_inbounds_def neighbors_def all_positions_def
        pos_def inb_def)

lemma layout_keeps: "keeps b b' \<Longrightarrow> layout b \<Longrightarrow> layout b'"
  by (simp add: keeps_def layout_def)

lemma keeps_dims:
  assumes "keeps b b'"
  shows "index b' = index b" "is_inbounds b' = is_inbounds b" "neighbors b' = neighbors b"
    "all_positions b' = all_positions b" "pos b' = pos b" "inb b' = inb b"
  using assms
  by (simp_all add: keeps_def fun_eq_iff index_def is_inbounds_def neighbors_def all_positions_def
        pos_def inb_def)

lemma cell_state_modify_state:
  assumes "layout b" "inb b p" "inb b q"
  shows "cell_state (modify_state b (pos b p) f) q =
           (if q = p then f (cell_state b p) else cell_state b q)"
proof -
  have eq: "pos (modify_state b (pos b p) f) q = pos b q"
    by (simp add: pos_def index_def)
  have lt: "pos b p < length (cells b)" using assms(1,2) by (rule pos_less)
  show ?thesis
  proof (cases "q = p")
    case True
    then show ?thesis
      unfolding cell_state_def eq using state_modify_state[OF lt, of f "pos b p"] by simp
  next
    case False
    with assms have "pos b q \<noteq> pos b p" by (auto dest: pos_inj)
    with False show ?thesis
      unfolding cell_state_def eq using state_modify_state[OF lt, of f "pos b q"] by simp
  qed
qed

lemma proj_modify_state:
  "(\<And>s. is_mine (f s) = is_mine s) \<Longrightarrow> mines_of (modify_state b k f) = mines_of b"
  "(\<And>s. is_flagged (f s) = is_flagged s) \<Longrightarrow> flags_of (modify_state b k f) = flags_of b"
  "(\<And>s. adjacent (f s) = adjacent s) \<Longrightarrow> adjacents_of (modify_state b k f) = adjacents_of b"
  by (cases "k < length (cells b)";
      simp add: mines_of_def flags_of_def adjacents_of_def modify_state_def map_update
        list_update_same_conv list_update_beyond)+

lemma mark_mines_spec:
  assumes "layout b" "\<forall>p\<in>set ps. inb b p"
  shows "\<exists>b'. mark_mines b ps = Inr b' \<and> keeps b b' \<and> revealed_of b' = revealed_of b \<and>
           flags_of b' = flags_of b \<and> adjacents_of b' = adjacents_of b \<and>
           (\<forall>q. inb b q \<longrightarrow> is_mine (cell_state b' q) = (q \<in> set ps \<or> is_mine (cell_state b q)))"
  using assms
proof (induction ps arbitrary: b)
  case Nil
  then show ?case by (simp add: keeps_refl)
next
  case (Cons p ps)
  obtain c r where p: "p = (c, r)" by (cases p)
  define b1 where "b1 = modify_state b (pos b p) (\<lambda>s. s\<lparr>is_mine := True\<rparr>)"
  have k1: "keeps b b1" by (simp add: b1_def keeps_modify_state)
  from Cons.prems have pin: "inb b p" by simp
  with Cons.prems have loc: "locate b c r = Inr (pos b p)"
    by (simp add: p locate_pos inb_def)
  have "layout b1" using k1 Cons.prems(1) by (rule layout_keeps)
  moreover have "\<forall>q\<in>set ps. inb b1 q" using Cons.prems(2) by (simp add: keeps_dims[OF k1])
  ultimately obtain b' where
    b': "mark_mines b1 ps = Inr b'" "keeps b1 b'" "revealed_of b' = revealed_of b1"
      "flags_of b' = flags_of b1" "adjacents_of b' = adjacents_of b1"
      "\<forall>q. inb b1 q \<longrightarrow> is_mine (cell_state b' q) = (q \<in> set ps \<or> is_mine (cell_state b1 q))"
    using Cons.IH[of b1] by blast
  have "mark_mines b (p # ps) = Inr b'"
    using loc b'(1) by (simp add: p b1_def)
  moreover have "keeps b b'" using k1 b'(2) by (rule keeps_trans)
  moreover have "revealed_of b' = revealed_of b" "flags_of b' = flags_of b"
    "adjacents_of b' = adjacents_of b"
    using b'(3,4,5) by (simp_all add: b1_def revealed_of_modify_state_keep proj_modify_state)
  moreover have "is_mine (cell_state b' q) = (q \<in> set (p # ps) \<or> is_mine (cell_state b q))"
    if "inb b q" for q
  proof -
    have "cell_state b1 q = (if q = p then (cell_state b p)\<lparr>is_mine := True\<rparr> else cell_state b q)"
      unfolding b1_def using Cons.prems(1) pin that by (rule cell_state_modify_state)
    moreover from that have "inb b1 q" by (simp add: keeps_dims[OF k1])
    with b'(6) have "is_mine (cell_state b' q) = (q \<in> set ps \<or> is_mine (cell_state b1 q))"
      by blast
    ultimately show ?thesis by auto
  qed
  ultimately show ?case by blast
qed

lemma count_mines_spec:
  assumes "layout b" "\<forall>p\<in>set ps. inb b p"
  shows "count_mines b ps n = Inr (n + int (length (filter (\<lambda>q. is_mine (cell_state b q)) ps)))"
  using assms
proof (induction ps arbitrary: n)
  case Nil
  then show ?case by simp
next
  case (Cons p ps)
  obtain c r where p: "p = (c, r)" by (cases p)
  from Cons.prems have "locate b c r = Inr (pos b p)"
    by (simp add: p locate_pos inb_def)
  with Cons show ?case by (simp add: p cell_state_def)
qed

lemma neighbors_inb: "q \<in> set (neighbors b c r) \<Longrightarrow> inb b q"
  by (auto simp: neighbors_def inb_def)

lemma mines_around_eq:
  assumes "keeps b b'" "\<And>q. inb b q \<Longrightarrow> is_mine (cell_state b' q) = is_mine (cell_state b q)"
  shows "mines_around b' p = mines_around b p"
proof -
  have "filter (\<lambda>q. is_mine (cell_state b' q)) (neighbors b (fst p) (snd p)) =
        filter (\<lambda>q. is_mine (cell_state b q)) (neighbors b (fst p) (snd p))"
    by (rule filter_cong) (auto dest: neighbors_inb assms(2))
  then show ?thesis by (simp add: mines_around_def keeps_dims[OF assms(1)])
qed

lemma compute_adjacent_spec:
  assumes "layout b" "\<forall>p\<in>set ps. inb b p"
  shows "\<exists>b'. compute_adjacent b ps = Inr b' \<and> keeps b b' \<and> revealed_of b' = revealed_of b \<and>
           flags_of b' = flags_of b \<and> mines_of b' = mines_of b \<and>
           (\<forall>q. inb b q \<longrightarrow> adjacent (cell_state b' q) =
              (if q \<in> set ps \<and> \<not> is_mine (cell_state b q) then int (mines_around b q)
               else adjacent (cell_state b q)))"
  using assms
proof (induction ps arbitrary: b)
  case Nil
  then show ?case by (simp add: keeps_refl)
next
  case (Cons p ps)
  obtain c r where p: "p = (c, r)" by (cases p)
  from Cons.prems have pin: "inb b p" by simp
  with Cons.prems have loc: "locate b c r = Inr (pos b p)"
    by (simp add: p locate_pos inb_def)
  show ?case
  proof (cases "is_mine (cell_state b p)")
    case True
    from Cons.prems obtain b' where
      b': "compute_adjacent b ps = Inr b'" "keeps b b'" "revealed_of b' = revealed_of b"
        "flags_of b' = flags_of b" "mines_of b' = mines_of b"
        "\<forall>q. inb b q \<longrightarrow> adjacent (cell_state b' q) =
              (if q \<in> set ps \<and> \<not> is_mine (cell_state b q) then int (mines_around b q)
               else adjacent (cell_state b q))"
      using Cons.IH[of b] by auto
    have "compute_adjacent b (p # ps) = Inr b'"
      using loc True b'(1) by (simp add: p cell_state_def)
    moreover have "adjacent (cell_state b' q) =
              (if q \<in> set (p # ps) \<and> \<not> is_mine (cell_state b q) then int (mines_around b q)
               else adjacent (cell_state b q))" if "inb b q" for q
    proof -
      from b'(6) that have "adjacent (cell_state b' q) =
              (if q \<in> set ps \<and> \<not> is_mine (cell_state b q) then int (mines_around b q)
               else adjacent (cell_state b q))" by blast
      with True show ?thesis by auto
    qed
    ultimately show ?thesis using b'(2-5) by blast
  next
    case False
    define n where "n = int (mines_around b p)"
    define b1 where "b1 = modify_state b (pos b p) (\<lambda>s. s\<lparr>adjacent := n\<rparr>)"
    have cnt: "count_mines b (neighbors b c r) 0 = Inr n"
      using count_mines_spec[OF Cons.prems(1), of "neighbors b c r" 0]
      by (auto simp: n_def mines_around_def p dest: neighbors_inb)
    have k1: "keeps b b1" by (simp add: b1_def keeps_modify_state)
    have cs1: "cell_state b1 q = (if q = p then (cell_state b p)\<lparr>adjacent := n\<rparr> else cell_state b q)"
      if "inb b q" for q
      unfolding b1_def using Cons.prems(1) pin that by (rule cell_state_modify_state)
    then have m1: "is_mine (cell_state b1 q) = is_mine (cell_state b q)" if "inb b q" for q
      using that by simp
    have ma: "mines_around b1 q = mines_around b q" for q
      using k1 m1 by (rule mines_around_eq)
    have "layout b1" using k1 Cons.prems(1) by (rule layout_keeps)
    moreover have "\<forall>q\<in>set ps. inb b1 q" using Cons.prems(2) by (simp add: keeps_dims[OF k1])
    ultimately obtain b' where
      b': "compute_adjacent b1 ps = Inr b'" "keeps b1 b'" "revealed_of b' = revealed_of b1"
        "flags_of b' = flags_of b1" "mines_of b' = mines_of b1"
        "\<forall>q. inb b1 q \<longrightarrow> adjacent (cell_state b' q) =
              (if q \<in> set ps \<and> \<not> is_mine (cell_state b1 q) then int (mines_around b1 q)
               else adjacent (cell_state b1 q))"
      using Cons.IH[of b1] by blast
    have "compute_adjacent b (p # ps) = Inr b'"
      using loc False cnt b'(1) by (simp add: p cell_state_def b1_def)
    moreover have "keeps b b'" using k1 b'(2) by (rule keeps_trans)
    moreover have "revealed_of b' = revealed_of b" "flags_of b' = flags_of b"
      "mines_of b' = mines_of b"
      using b'(3,4,5) by (simp_all add: b1_def revealed_of_modify_state_keep proj_modify_state)
    moreover have "adjacent (cell_state b' q) =
              (if q \<in> set (p # ps) \<and> \<not> is_mine (cell_state b q) then int (mines_around b q)
               else adjacent (cell_state b q))" if "inb b q" for q
    proof -
      from that have "inb b1 q" by (simp add: keeps_dims[OF k1])
      with b'(6) have "adjacent (cell_state b' q) =
              (if q \<in> set ps \<and> \<not> is_mine (cell_state b1 q) then int (mines_around b1 q)
               else adjacent (cell_state b1 q))" by blast
      with that False show ?thesis by (auto simp: ma m1 cs1 n_def)
    qed
    ultimately show ?thesis by blast
  qed
qed

subsection \<open>Counting cells, and the positions chosen for the mines\<close>

lemma proj_nth:
  assumes "layout b" "inb b q"
  shows "mines_of b ! pos b q = is_mine (cell_state b q)"
    "flags_of b ! pos b q = is_flagged (cell_state b q)"
    "revealed_of b ! pos b q = is_revealed (cell_state b q)"
    "adjacents_of b ! pos b q = adjacent (cell_state b q)"
  using pos_less[OF assms]
  by (simp_all add: mines_of_def flags_of_def revealed_of_def adjacents_of_def cell_state_def)

lemma proj_length [simp]:
  "length (mines_of b) = length (cells b)" "length (flags_of b) = length (cells b)"
  "length (revealed_of b) = length (cells b)" "length (adjacents_of b) = length (cells b)"
  by (simp_all add: mines_of_def flags_of_def revealed_of_def adjacents_of_def)

lemma mine_total_proj: "mine_total b = length (filter id (mines_of b))"
  by (simp add: mine_total_def mines_of_def filter_map comp_def)

lemma revealed_total_proj: "revealed_total b = length (filter id (revealed_of b))"
  by (simp add: revealed_total_def revealed_of_def filter_map comp_def)

lemma mine_total_positions:
  assumes lay: "layout b" and d: "distinct ps" and inb: "\<forall>p\<in>set ps. inb b p"
    and m: "\<forall>q. inb b q \<longrightarrow> is_mine (cell_state b q) = (q \<in> set ps)"
  shows "mine_total b = length ps"
proof -
  have "{k. k < length (cells b) \<and> is_mine (state (cells b ! k))} = pos b ` set ps"
  proof (intro set_eqI iffI)
    fix k assume "k \<in> {k. k < length (cells b) \<and> is_mine (state (cells b ! k))}"
    then have k: "k < length (cells b)" "is_mine (state (cells b ! k))" by auto
    from pos_surj[OF lay k(1)] obtain q where q: "inb b q" "pos b q = k" by blast
    from m q(1) have "is_mine (cell_state b q) = (q \<in> set ps)" by blast
    with k(2) q(2) show "k \<in> pos b ` set ps" by (auto simp: cell_state_def)
  next
    fix k assume "k \<in> pos b ` set ps"
    then obtain q where q: "q \<in> set ps" "k = pos b q" by blast
    with inb have qi: "inb b q" by blast
    with m q(1) have "is_mine (cell_state b q)" by blast
    with q(2) qi lay show "k \<in> {k. k < length (cells b) \<and> is_mine (state (cells b ! k))}"
      by (simp add: pos_less cell_state_def)
  qed
  moreover have "inj_on (pos b) (set ps)"
    using inb by (auto simp: inj_on_def dest: pos_inj)
  ultimately show ?thesis
    using d by (simp add: mine_total_def length_filter_conv_card card_image distinct_card)
qed

lemma length_neighbors: "length (neighbors b c r) \<le> 8"
proof -
  have "length (neighbors b c r) \<le> length deltas"
    unfolding neighbors_def by (rule order_trans[OF length_filter_le]) simp
  then show ?thesis by (simp add: deltas_def)
qed

lemma set_py_take: "set (py_take n xs) \<subseteq> set xs"
  by (auto simp: py_take_def dest: in_set_takeD)

lemma distinct_py_take: "distinct xs \<Longrightarrow> distinct (py_take n xs)"
  by (simp add: py_take_def)

lemma length_mine_pool:
  assumes "is_inbounds b c r"
  shows "cols b * rows b - 9 \<le> int (length (mine_pool b c r))"
proof -
  let ?F = "insert (c, r) (set (neighbors b c r))"
  let ?bad = "filter (\<lambda>p. p \<in> ?F) (all_positions b)"
  have "card ?F \<le> Suc (card (set (neighbors b c r)))"
    by (simp add: card_insert_if)
  also have "\<dots> \<le> Suc (length (neighbors b c r))"
    by (simp add: card_length)
  also have "\<dots> \<le> 9" using length_neighbors[of b c r] by simp
  finally have F: "card ?F \<le> 9" .
  have "length ?bad = card (set ?bad)"
    by (rule distinct_card[symmetric]) (simp add: distinct_all_positions)
  also have "\<dots> \<le> card ?F"
    by (rule card_mono) auto
  finally have bad: "length ?bad \<le> 9" using F by simp
  have "length (all_positions b) = length ?bad + length (mine_pool b c r)"
    unfolding mine_pool_def using sum_length_filter_compl[of "\<lambda>p. p \<in> ?F" "all_positions b"]
    by simp
  moreover from assms have "0 \<le> cols b" "0 \<le> rows b" by (auto simp: is_inbounds_def)
  then have "int (length (all_positions b)) = cols b * rows b"
    by (simp add: length_all_positions)
  ultimately show ?thesis using bad by linarith
qed

lemma mine_positions_props:
  assumes sh: "\<And>xs. mset (sh xs) = mset xs"
  shows "distinct (mine_positions sh b c r)"
    and "\<forall>p\<in>set (mine_positions sh b c r). inb b p \<and> p \<noteq> (c, r) \<and> p \<notin> set (neighbors b c r)"
proof -
  have "distinct (mine_pool b c r)"
    by (simp add: mine_pool_def distinct_all_positions)
  then have "distinct (sh (mine_pool b c r))"
    using mset_eq_imp_distinct_iff[OF sh] by blast
  then show "distinct (mine_positions sh b c r)"
    by (simp add: mine_positions_def distinct_py_take)
  have "set (sh (mine_pool b c r)) = set (mine_pool b c r)"
    by (rule mset_eq_setD[OF sh])
  then have "set (mine_positions sh b c r) \<subseteq> set (mine_pool b c r)"
    using set_py_take[of "num_mines b" "sh (mine_pool b c r)"] by (simp add: mine_positions_def)
  then show "\<forall>p\<in>set (mine_positions sh b c r). inb b p \<and> p \<noteq> (c, r) \<and> p \<notin> set (neighbors b c r)"
    by (auto simp: mine_pool_def set_all_positions)
qed

lemma length_mine_positions:
  assumes sh: "\<And>xs. mset (sh xs) = mset xs"
    and "is_inbounds b c r" "0 \<le> num_mines b" "num_mines b \<le> cols b * rows b - 9"
  shows "int (length (mine_positions sh b c r)) = num_mines b"
proof -
  have "length (sh (mine_pool b c r)) = length (mine_pool b c r)"
    by (rule mset_eq_length[OF sh])
  with length_mine_pool[OF assms(2)] assms(3,4) show ?thesis
    by (simp add: mine_positions_def py_take_def)
qed

subsection \<open>Placement establishes the mine layout and the adjacency counts\<close>

lemma scalar_update_simps [simp]:
  "pos (b\<lparr>mines_placed := m\<rparr>) = pos b" "pos (b\<lparr>revealed_count := n\<rparr>) = pos b"
  "pos (b\<lparr>game_over := g\<rparr>) = pos b" "pos (b\<lparr>win := w\<rparr>) = pos b"
  "inb (b\<lparr>mines_placed := m\<rparr>) = inb b" "inb (b\<lparr>revealed_count := n\<rparr>) = inb b"
  "inb (b\<lparr>game_over := g\<rparr>) = inb b" "inb (b\<lparr>win := w\<rparr>) = inb b"
  "cell_state (b\<lparr>mines_placed := m\<rparr>) = cell_state b"
  "cell_state (b\<lparr>revealed_count := n\<rparr>) = cell_state b"
  "cell_state (b\<lparr>game_over := g\<rparr>) = cell_state b"
  "cell_state (b\<lparr>win := w\<rparr>) = cell_state b"
  "neighbors (b\<lparr>mines_placed := m\<rparr>) = neighbors b"
  "neighbors (b\<lparr>revealed_count := n\<rparr>) = neighbors b"
  "neighbors (b\<lparr>game_over := g\<rparr>) = neighbors b"
  "neighbors (b\<lparr>win := w\<rparr>) = neighbors b"
  "all_positions (b\<lparr>mines_placed := m\<rparr>) = all_positions b"
  "all_positions (b\<lparr>revealed_count := n\<rparr>) = all_positions b"
  "all_positions (b\<lparr>game_over := g\<rparr>) = all_positions b"
  "all_positions (b\<lparr>win := w\<rparr>) = all_positions b"
  "is_inbounds (b\<lparr>mines_placed := m\<rparr>) = is_inbounds b"
  "is_inbounds (b\<lparr>revealed_count := n\<rparr>) = is_inbounds b"
  "is_inbounds (b\<lparr>game_over := g\<rparr>) = is_inbounds b"
  "is_inbounds (b\<lparr>win := w\<rparr>) = is_inbounds b"
  by (simp_all add: fun_eq_iff pos_def inb_def cell_state_def index_def is_inbounds_def
        neighbors_def all_positions_def)

lemma scalar_update_proj [simp]:
  "mines_of (b\<lparr>mines_placed := m\<rparr>) = mines_of b" "mines_of (b\<lparr>revealed_count := n\<rparr>) = mines_of b"
  "mines_of (b\<lparr>game_over := g\<rparr>) = mines_of b" "mines_of (b\<lparr>win := w\<rparr>) = mines_of b"
  "flags_of (b\<lparr>mines_placed := m\<rparr>) = flags_of b" "flags_of (b\<lparr>revealed_count := n\<rparr>) = flags_of b"
  "flags_of (b\<lparr>game_over := g\<rparr>) = flags_of b" "flags_of (b\<lparr>win := w\<rparr>) = flags_of b"
  "adjacents_of (b\<lparr>mines_placed := m\<rparr>) = adjacents_of b"
  "adjacents_of (b\<lparr>revealed_count := n\<rparr>) = adjacents_of b"
  "adjacents_of (b\<lparr>game_over := g\<rparr>) = adjacents_of b"
  "adjacents_of (b\<lparr>win := w\<rparr>) = adjacents_of b"
  "revealed_of (b\<lparr>mines_placed := m\<rparr>) = revealed_of b"
  "revealed_of (b\<lparr>win := w\<rparr>) = revealed_of b"
  "mine_total (b\<lparr>mines_placed := m\<rparr>) = mine_total b"
  "mine_total (b\<lparr>revealed_count := n\<rparr>) = mine_total b"
  "mine_total (b\<lparr>game_over := g\<rparr>) = mine_total b" "mine_total (b\<lparr>win := w\<rparr>) = mine_total b"
  "revealed_total (b\<lparr>mines_placed := m\<rparr>) = revealed_total b"
  "revealed_total (b\<lparr>revealed_count := n\<rparr>) = revealed_total b"
  "revealed_total (b\<lparr>game_over := g\<rparr>) = revealed_total b"
  "revealed_total (b\<lparr>win := w\<rparr>) = revealed_total b"
  "mines_around (b\<lparr>mines_placed := m\<rparr>) = mines_around b"
  "mines_around (b\<lparr>revealed_count := n\<rparr>) = mines_around b"
  "mines_around (b\<lparr>game_over := g\<rparr>) = mines_around b"
  "mines_around (b\<lparr>win := w\<rparr>) = mines_around b"
  "layout (b\<lparr>mines_placed := m\<rparr>) = layout b" "layout (b\<lparr>revealed_count := n\<rparr>) = layout b"
  "layout (b\<lparr>game_over := g\<rparr>) = layout b" "layout (b\<lparr>win := w\<rparr>) = layout b"
  by (simp_all add: fun_eq_iff mines_of_def flags_of_def adjacents_of_def revealed_of_def
        mine_total_def revealed_total_def mines_around_def layout_def)

lemma mines_coord_eq:
  assumes "layout b" "keeps b b'" "mines_of b' = mines_of b" "inb b q"
  shows "is_mine (cell_state b' q) = is_mine (cell_state b q)"
proof -
  have "layout b'" using assms(2,1) by (rule layout_keeps)
  moreover have "inb b' q" using assms(4) by (simp add: keeps_dims[OF assms(2)])
  ultimately have "mines_of b' ! pos b' q = is_mine (cell_state b' q)" by (rule proj_nth)
  moreover have "mines_of b ! pos b q = is_mine (cell_state b q)"
    using assms(1,4) by (rule proj_nth)
  ultimately show ?thesis using assms(3) by (simp add: keeps_dims[OF assms(2)])
qed

lemma place_mines_spec:
  assumes lay: "layout b"
    and sh: "\<And>xs. mset (sh xs) = mset xs"
  shows "\<exists>b'. place_mines sh b c r = Inr b' \<and> keeps b (b'\<lparr>mines_placed := mines_placed b\<rparr>) \<and>
           mines_placed b' \<and> revealed_of b' = revealed_of b \<and> flags_of b' = flags_of b \<and>
           (\<forall>q. inb b q \<longrightarrow>
              is_mine (cell_state b' q) =
                (q \<in> set (mine_positions sh b c r) \<or> is_mine (cell_state b q))) \<and>
           adjacency_ok b'"
proof -
  let ?mp = "mine_positions sh b c r"
  have "\<forall>p\<in>set ?mp. inb b p" using mine_positions_props(2)[OF sh] by blast
  with lay obtain b1 where
    b1: "mark_mines b ?mp = Inr b1" "keeps b b1" "revealed_of b1 = revealed_of b"
      "flags_of b1 = flags_of b"
      "\<forall>q. inb b q \<longrightarrow> is_mine (cell_state b1 q) = (q \<in> set ?mp \<or> is_mine (cell_state b q))"
    using mark_mines_spec[of b ?mp] by blast
  have lay1: "layout b1" using b1(2) lay by (rule layout_keeps)
  moreover have "\<forall>p\<in>set (all_positions b1). inb b1 p" by (simp add: set_all_positions)
  ultimately obtain b2 where
    b2: "compute_adjacent b1 (all_positions b1) = Inr b2" "keeps b1 b2"
      "revealed_of b2 = revealed_of b1" "flags_of b2 = flags_of b1" "mines_of b2 = mines_of b1"
      "\<forall>q. inb b1 q \<longrightarrow> adjacent (cell_state b2 q) =
              (if q \<in> set (all_positions b1) \<and> \<not> is_mine (cell_state b1 q)
               then int (mines_around b1 q) else adjacent (cell_state b1 q))"
    using compute_adjacent_spec[of b1 "all_positions b1"] by blast
  define b' where "b' = b2\<lparr>mines_placed := True\<rparr>"
  have k2: "keeps b b2" using b1(2) b2(2) by (rule keeps_trans)
  have m2: "is_mine (cell_state b2 q) = is_mine (cell_state b1 q)" if "inb b1 q" for q
    using lay1 b2(2,5) that by (rule mines_coord_eq)
  have "place_mines sh b c r = Inr b'"
    using b1(1) b2(1)
    by (simp add: place_mines_def mine_positions_def mine_pool_def b'_def)
  moreover have "keeps b (b'\<lparr>mines_placed := mines_placed b\<rparr>)"
    using k2 by (simp add: keeps_def b'_def)
  moreover have "mines_placed b'" by (simp add: b'_def)
  moreover have "revealed_of b' = revealed_of b" "flags_of b' = flags_of b"
    using b1(3,4) b2(3,4) by (simp_all add: b'_def)
  moreover have "is_mine (cell_state b' q) = (q \<in> set ?mp \<or> is_mine (cell_state b q))"
    if "inb b q" for q
  proof -
    from that have "inb b1 q" by (simp add: keeps_dims[OF b1(2)])
    then have "is_mine (cell_state b2 q) = is_mine (cell_state b1 q)" by (rule m2)
    moreover from b1(5) that
    have "is_mine (cell_state b1 q) = (q \<in> set ?mp \<or> is_mine (cell_state b q))" by blast
    ultimately show ?thesis by (simp add: b'_def)
  qed
  moreover have "adjacency_ok b'"
    unfolding adjacency_ok_def
  proof (intro ballI impI)
    fix q assume q: "q \<in> set (all_positions b')" and nm: "\<not> is_mine (cell_state b' q)"
    from q have q1: "inb b1 q" "q \<in> set (all_positions b1)"
      by (simp_all add: b'_def set_all_positions keeps_dims[OF b2(2)])
    from nm q1(1) have "\<not> is_mine (cell_state b1 q)" by (simp add: b'_def m2)
    moreover from b2(6) q1(1) have "adjacent (cell_state b2 q) =
              (if q \<in> set (all_positions b1) \<and> \<not> is_mine (cell_state b1 q)
               then int (mines_around b1 q) else adjacent (cell_state b1 q))" by blast
    ultimately have "adjacent (cell_state b2 q) = int (mines_around b1 q)"
      using q1(2) by simp
    moreover have "mines_around b2 q = mines_around b1 q"
      using b2(2) m2 by (rule mines_around_eq)
    ultimately show "adjacent (cell_state b' q) = int (mines_around b' q)"
      by (simp add: b'_def)
  qed
  ultimately show ?thesis by blast
qed

subsection \<open>Unfolding and induction for reveal\<close>

declare reveal.simps [simp del]

lemma modify_state_dims [simp]:
  "neighbors (modify_state b k f) = neighbors b" "pos (modify_state b k f) = pos b"
  "inb (modify_state b k f) = inb b" "is_inbounds (modify_state b k f) = is_inbounds b"
  "all_positions (modify_state b k f) = all_positions b"
  "index (modify_state b k f) = index b" "layout (modify_state b k f) = layout b"
  by (simp_all add: fun_eq_iff index_def is_inbounds_def neighbors_def all_positions_def
        pos_def inb_def layout_def)

lemma mark_revealed_fields [simp]:
  "cols (mark_revealed b k) = cols b" "rows (mark_revealed b k) = rows b"
  "num_mines (mark_revealed b k) = num_mines b"
  "mines_placed (mark_revealed b k) = mines_placed b"
  "revealed_count (mark_revealed b k) = revealed_count b + 1"
  "game_over (mark_revealed b k) = game_over b" "win (mark_revealed b k) = win b"
  "length (cells (mark_revealed b k)) = length (cells b)"
  "neighbors (mark_revealed b k) = neighbors b" "pos (mark_revealed b k) = pos b"
  "inb (mark_revealed b k) = inb b" "is_inbounds (mark_revealed b k) = is_inbounds b"
  "all_positions (mark_revealed b k) = all_positions b"
  "layout (mark_revealed b k) = layout b"
  "mines_of (mark_revealed b k) = mines_of b" "flags_of (mark_revealed b k) = flags_of b"
  "adjacents_of (mark_revealed b k) = adjacents_of b"
  by (simp_all add: mark_revealed_def proj_modify_state)

lemma revealed_of_mark_revealed:
  "revealed_of (mark_revealed b k) = (revealed_of b)[k := True]"
  by (simp add: mark_revealed_def revealed_of_modify_state)


text \<open>
  One unfolding of \<^verbatim>\<open>reveal\<close> on a board whose cell list has the row-major layout, read
  through the coordinate of the cell.
\<close>

lemma reveal_unfold:
  assumes inb: "is_inbounds b c r"
    and b1: "(if \<not> mines_placed b then place_mines sh b c r else Inr b) = Inr b1"
    and lay: "layout b1" and dims: "cols b1 = cols b" "rows b1 = rows b"
  shows "reveal sh b c r =
     (if is_revealed (cell_state b1 (c, r)) \<or> is_flagged (cell_state b1 (c, r)) then Inr b1
      else if is_mine (cell_state b1 (c, r))
        then Inr (reveal_all_mines ((mark_revealed b1 (pos b1 (c, r)))\<lparr>game_over := True\<rparr>))
        else case (if adjacent (cell_state b1 (c, r)) = 0
                   then reveal_each sh (mark_revealed b1 (pos b1 (c, r))) (neighbors b1 c r)
                   else Inr (mark_revealed b1 (pos b1 (c, r)))) of
               Inl e \<Rightarrow> Inl e
             | Inr b3 \<Rightarrow> Inr (check_win b3))"
proof -
  from inb dims have inb1: "is_inbounds b1 c r" by (simp add: is_inbounds_def)
  then have loc: "locate b1 c r = Inr (pos b1 (c, r))" using lay by (simp add: locate_pos)
  have lt: "pos b1 (c, r) < length (cells b1)"
    using lay inb1 by (simp add: pos_less inb_def)
  have st: "state (cells (modify_state b1 (pos b1 (c, r)) (\<lambda>s. s\<lparr>is_revealed := True\<rparr>)) ! pos b1 (c, r))
              = (cell_state b1 (c, r))\<lparr>is_revealed := True\<rparr>"
    using state_modify_state[OF lt, of "\<lambda>s. s\<lparr>is_revealed := True\<rparr>" "pos b1 (c, r)"]
    by (simp add: cell_state_def)
  have nb: "neighbors (modify_state b1 (pos b1 (c, r)) (\<lambda>s. s\<lparr>is_revealed := True\<rparr>)) = neighbors b1"
    by simp
  show ?thesis
    apply (subst reveal.simps)
    apply (simp only: inb b1 loc sum.case if_False not_not Let_def)
    apply (simp add: st nb mark_revealed_def cell_state_def[symmetric] del: reveal.simps)
    done
qed

lemma keeps_mark_mines: "mark_mines b ps = Inr b' \<Longrightarrow> keeps b b'"
proof (induction b ps rule: mark_mines.induct)
  case (1 b)
  then show ?case by (simp add: keeps_refl)
next
  case (2 b c r ps)
  then show ?case
    by (auto split: sum.splits intro: keeps_trans[OF keeps_modify_state])
qed

lemma keeps_compute_adjacent: "compute_adjacent b ps = Inr b' \<Longrightarrow> keeps b b'"
proof (induction b ps rule: compute_adjacent.induct)
  case (1 b)
  then show ?case by (simp add: keeps_refl)
next
  case (2 b c r ps)
  then show ?case
    by (auto split: sum.splits if_splits intro: keeps_trans[OF keeps_modify_state])
qed

lemma place_mines_dims:
  assumes "place_mines sh b c r = Inr b'"
  shows "cols b' = cols b" "rows b' = rows b"
  using assms unfolding place_mines_def Let_def
  by (auto split: sum.splits dest!: keeps_mark_mines keeps_compute_adjacent simp: keeps_def)

text \<open>
  Induction along the calls of \<^verbatim>\<open>reveal\<close>, for boards with the row-major layout: the
  hypothesis for the loop over the neighbours is stated through the coordinate of the cell.
\<close>

lemma reveal_layout_induct:
  fixes P :: "Board \<Rightarrow> int \<Rightarrow> int \<Rightarrow> bool" and Q :: "Board \<Rightarrow> (int \<times> int) list \<Rightarrow> bool"
  assumes step: "\<And>b c r.
      (\<And>b1. \<lbrakk>is_inbounds b c r;
             (if \<not> mines_placed b then place_mines sh b c r else Inr b) = Inr b1;
             layout b1;
             \<not> is_revealed (cell_state b1 (c, r)); \<not> is_flagged (cell_state b1 (c, r));
             \<not> is_mine (cell_state b1 (c, r)); adjacent (cell_state b1 (c, r)) = 0\<rbrakk>
            \<Longrightarrow> Q (mark_revealed b1 (pos b1 (c, r))) (neighbors b1 c r))
      \<Longrightarrow> P b c r"
    and nil: "\<And>b. Q b []"
    and cons: "\<And>b nc nr ps.
      \<lbrakk>P b nc nr; \<And>b'. reveal sh b nc nr = Inr b' \<Longrightarrow> Q b' ps\<rbrakk> \<Longrightarrow> Q b ((nc, nr) # ps)"
  shows "P b c r" and "Q b ps"
proof -
  have "s = sh \<longrightarrow> P b c r" and "s = sh \<longrightarrow> Q b ps" for s
  proof (induction s b c r and s b ps rule: reveal_reveal_each.induct)
    case (1 s b c r)
    show ?case
    proof
      assume s: "s = sh"
      show "P b c r"
      proof (rule step)
        fix b1
        assume inb: "is_inbounds b c r"
          and b1: "(if \<not> mines_placed b then place_mines sh b c r else Inr b) = Inr b1"
          and lay: "layout b1"
          and closed: "\<not> is_revealed (cell_state b1 (c, r))" "\<not> is_flagged (cell_state b1 (c, r))"
          and safe: "\<not> is_mine (cell_state b1 (c, r))"
          and zero: "adjacent (cell_state b1 (c, r)) = 0"
        let ?k = "pos b1 (c, r)"
        let ?b2 = "(modify_state b1 ?k (\<lambda>s. s\<lparr>is_revealed := True\<rparr>))
                      \<lparr>revealed_count := revealed_count b1 + 1\<rparr>"
        from b1 have dims: "cols b1 = cols b" "rows b1 = rows b"
          by (auto split: if_splits dest: place_mines_dims)
        with inb have inb1: "is_inbounds b1 c r" by (simp add: is_inbounds_def)
        then have loc: "locate b1 c r = Inr ?k" using lay by (simp add: locate_pos)
        have lt: "?k < length (cells b1)" using lay inb1 by (simp add: pos_less inb_def)
        have st: "state (cells (modify_state b1 ?k (\<lambda>s. s\<lparr>is_revealed := True\<rparr>)) ! ?k) =
                    (cell_state b1 (c, r))\<lparr>is_revealed := True\<rparr>"
          using state_modify_state[OF lt, of "\<lambda>s. s\<lparr>is_revealed := True\<rparr>" ?k]
          by (simp add: cell_state_def)
        have "s = sh \<longrightarrow> Q ?b2 (neighbors ?b2 c r)"
        proof (rule "1.IH"[of b1 ?k ?b2])
          show "\<not> \<not> is_inbounds b c r" using inb by simp
          show "(if \<not> mines_placed b then place_mines s b c r else Inr b) = Inr b1"
            unfolding s by (rule b1)
          show "locate b1 c r = Inr ?k" by (rule loc)
          show "\<not> (is_revealed (state (cells b1 ! ?k)) \<or> is_flagged (state (cells b1 ! ?k)))"
            using closed by (simp add: cell_state_def)
          show "?b2 = ?b2" ..
          show "\<not> is_mine (state (cells ?b2 ! ?k))" using safe by (simp add: st)
          show "adjacent (state (cells ?b2 ! ?k)) = 0" using zero by (simp add: st)
        qed
        with s show "Q (mark_revealed b1 ?k) (neighbors b1 c r)"
          by (simp add: mark_revealed_def)
      qed
    qed
  next
    case (2 s b)
    show ?case by (simp add: nil)
  next
    case (3 s b nc nr ps)
    then show ?case by (auto intro: cons)
  qed
  then show "P b c r" and "Q b ps" by simp_all
qed

lemma reveal_out_of_bounds: "\<not> is_inbounds b c r \<Longrightarrow> reveal sh b c r = Inr b"
  by (subst reveal.simps) simp

text \<open>
  A property of boards that the four mutations inside \<^verbatim>\<open>reveal\<close> keep (placement, marking
  a safe cell, the loss sweep, the win check) holds after \<^verbatim>\<open>reveal\<close>, which then returns
  a board and raises nothing.
\<close>

lemma reveal_invariant:
  fixes I :: "Board \<Rightarrow> bool"
  assumes lay: "\<And>b. I b \<Longrightarrow> layout b"
    and place: "\<And>b c r. \<lbrakk>I b; \<not> mines_placed b; is_inbounds b c r\<rbrakk>
        \<Longrightarrow> \<exists>b'. place_mines sh b c r = Inr b' \<and> I b' \<and> mines_placed b'"
    and mark: "\<And>b p. \<lbrakk>I b; mines_placed b; inb b p; \<not> is_revealed (cell_state b p);
         \<not> is_flagged (cell_state b p); \<not> is_mine (cell_state b p)\<rbrakk>
        \<Longrightarrow> I (mark_revealed b (pos b p))"
    and lose: "\<And>b p. \<lbrakk>I b; mines_placed b; inb b p; \<not> is_revealed (cell_state b p);
         \<not> is_flagged (cell_state b p); is_mine (cell_state b p)\<rbrakk>
        \<Longrightarrow> I (reveal_all_mines ((mark_revealed b (pos b p))\<lparr>game_over := True\<rparr>))"
    and win: "\<And>b. I b \<Longrightarrow> I (check_win b)"
  shows "I b \<Longrightarrow> \<exists>b'. reveal sh b c r = Inr b' \<and> I b'"
    and "I b \<Longrightarrow> \<exists>b'. reveal_each sh b ps = Inr b' \<and> I b'"
proof -
  have "I b \<longrightarrow> (\<exists>b'. reveal sh b c r = Inr b' \<and> I b')"
    and "I b \<longrightarrow> (\<exists>b'. reveal_each sh b ps = Inr b' \<and> I b')"
  proof (induction b c r and b ps rule: reveal_layout_induct[where sh = sh])
    case (1 b c r)
    show ?case
    proof
      assume Ib: "I b"
      show "\<exists>b'. reveal sh b c r = Inr b' \<and> I b'"
      proof (cases "is_inbounds b c r")
        case False
        with Ib show ?thesis by (simp add: reveal_out_of_bounds)
      next
        case inb: True
        have "\<exists>b1. (if \<not> mines_placed b then place_mines sh b c r else Inr b) = Inr b1 \<and>
                 I b1 \<and> mines_placed b1"
          using place[OF Ib _ inb] Ib by (cases "mines_placed b") auto
        then obtain b1 where
          b1: "(if \<not> mines_placed b then place_mines sh b c r else Inr b) = Inr b1"
          and I1: "I b1" and mp: "mines_placed b1" by blast
        from b1 have dims: "cols b1 = cols b" "rows b1 = rows b"
          by (auto split: if_splits dest: place_mines_dims)
        with inb have p: "inb b1 (c, r)" by (simp add: inb_def is_inbounds_def)
        note unf = reveal_unfold[OF inb b1 lay[OF I1] dims]
        let ?p = "(c, r)"
        let ?b2 = "mark_revealed b1 (pos b1 ?p)"
        show ?thesis
        proof (cases "is_revealed (cell_state b1 ?p) \<or> is_flagged (cell_state b1 ?p)")
          case True
          with unf I1 show ?thesis by simp
        next
          case closed: False
          show ?thesis
          proof (cases "is_mine (cell_state b1 ?p)")
            case True
            with closed I1 mp p have "I (reveal_all_mines (?b2\<lparr>game_over := True\<rparr>))"
              by (intro lose) auto
            with unf closed True show ?thesis by simp
          next
            case safe: False
            with closed I1 mp p have I2: "I ?b2" by (intro mark) auto
            have "\<exists>b3. (if adjacent (cell_state b1 ?p) = 0
                         then reveal_each sh ?b2 (neighbors b1 c r) else Inr ?b2) = Inr b3 \<and> I b3"
            proof (cases "adjacent (cell_state b1 ?p) = 0")
              case True
              from "1.IH"[OF inb b1 lay[OF I1] _ _ safe True] closed I2 True
              show ?thesis by simp
            next
              case False
              with I2 show ?thesis by simp
            qed
            then obtain b3 where
              "(if adjacent (cell_state b1 ?p) = 0
                then reveal_each sh ?b2 (neighbors b1 c r) else Inr ?b2) = Inr b3" "I b3"
              by blast
            with unf closed safe win[of b3] show ?thesis by simp
          qed
        qed
      qed
    qed
  next
    case (2 b)
    show ?case by simp
  next
    case (3 b nc nr ps)
    show ?case
    proof
      assume "I b"
      with "3.IH"(1) obtain b1 where b1: "reveal sh b nc nr = Inr b1" "I b1" by blast
      with "3.IH"(2)[OF b1(1)] obtain b' where "reveal_each sh b1 ps = Inr b'" "I b'" by blast
      with b1 show "\<exists>b'. reveal_each sh b ((nc, nr) # ps) = Inr b' \<and> I b'" by simp
    qed
  qed
  then show "I b \<Longrightarrow> \<exists>b'. reveal sh b c r = Inr b' \<and> I b'"
    and "I b \<Longrightarrow> \<exists>b'. reveal_each sh b ps = Inr b' \<and> I b'" by blast+
qed

subsection \<open>The board invariant\<close>

lemma same_mines_refl: "same_mines b b"
  by (simp add: same_mines_def)

lemma same_mines_trans: "same_mines a b \<Longrightarrow> same_mines b c \<Longrightarrow> same_mines a c"
  by (simp add: same_mines_def)

lemma same_mines_length: "same_mines b b' \<Longrightarrow> length (cells b') = length (cells b)"
  unfolding same_mines_def using proj_length(1) by metis

lemma same_mines_dims:
  assumes "same_mines b b'"
  shows "index b' = index b" "is_inbounds b' = is_inbounds b" "neighbors b' = neighbors b"
    "all_positions b' = all_positions b" "pos b' = pos b" "inb b' = inb b"
  using assms
  by (simp_all add: same_mines_def fun_eq_iff index_def is_inbounds_def neighbors_def
        all_positions_def pos_def inb_def)

lemma same_mines_layout: "same_mines b b' \<Longrightarrow> layout b \<Longrightarrow> layout b'"
  using same_mines_length[of b b'] by (simp add: layout_def same_mines_def)

lemma same_mines_coord:
  assumes "same_mines b b'" "layout b" "inb b q"
  shows "is_mine (cell_state b' q) = is_mine (cell_state b q)"
    and "adjacent (cell_state b' q) = adjacent (cell_state b q)"
proof -
  have l': "layout b'" using assms(1,2) by (rule same_mines_layout)
  have q': "inb b' q" using assms(3) by (simp add: same_mines_dims[OF assms(1)])
  have "mines_of b' ! pos b' q = mines_of b ! pos b q"
    "adjacents_of b' ! pos b' q = adjacents_of b ! pos b q"
    using assms(1) by (simp_all add: same_mines_def same_mines_dims[OF assms(1)])
  then show "is_mine (cell_state b' q) = is_mine (cell_state b q)"
    and "adjacent (cell_state b' q) = adjacent (cell_state b q)"
    by (simp_all add: proj_nth[OF l' q'] proj_nth[OF assms(2,3)])
qed

lemma same_mines_around:
  assumes "same_mines b b'" "layout b"
  shows "mines_around b' q = mines_around b q"
proof -
  have "filter (\<lambda>q. is_mine (cell_state b' q)) (neighbors b (fst q) (snd q)) =
        filter (\<lambda>q. is_mine (cell_state b q)) (neighbors b (fst q) (snd q))"
    by (rule filter_cong) (auto dest: neighbors_inb simp: same_mines_coord[OF assms])
  then show ?thesis by (simp add: mines_around_def same_mines_dims[OF assms(1)])
qed

lemma same_mines_total: "same_mines b b' \<Longrightarrow> mine_total b' = mine_total b"
  by (simp add: mine_total_proj same_mines_def)

lemma same_mines_adjacency_ok:
  assumes "same_mines b b'" "layout b" "adjacency_ok b"
  shows "adjacency_ok b'"
  unfolding adjacency_ok_def
proof (intro ballI impI)
  fix q assume "q \<in> set (all_positions b')" "\<not> is_mine (cell_state b' q)"
  then have q: "inb b q" "q \<in> set (all_positions b)" "\<not> is_mine (cell_state b q)"
    using same_mines_coord(1)[OF assms(1,2), of q]
    by (simp_all add: set_all_positions same_mines_dims[OF assms(1)])
  with assms(3) have "adjacent (cell_state b q) = int (mines_around b q)"
    by (simp add: adjacency_ok_def)
  then show "adjacent (cell_state b' q) = int (mines_around b' q)"
    using q(1) by (simp add: same_mines_coord[OF assms(1,2)] same_mines_around[OF assms(1,2)])
qed

lemma count_complement:
  assumes "\<forall>k<length xs. M (xs ! k) \<longrightarrow> \<not> R (xs ! k)"
    and "int (length (filter R xs)) = int (length xs) - int (length (filter M xs))"
  shows "\<forall>x\<in>set xs. \<not> M x \<longrightarrow> R x"
proof (intro ballI impI, rule ccontr)
  fix x assume x: "x \<in> set xs" "\<not> M x" "\<not> R x"
  define ys where "ys = filter (\<lambda>x. \<not> M x) xs"
  have excl: "\<forall>y\<in>set xs. M y \<longrightarrow> \<not> R y"
    using assms(1) by (auto simp: in_set_conv_nth)
  have "filter R ys = filter R xs"
    unfolding ys_def filter_filter by (rule filter_cong) (use excl in auto)
  then have "length (filter R ys) = length (filter R xs)" by simp
  moreover have "length (filter M xs) + length ys = length xs"
    unfolding ys_def by (rule sum_length_filter_compl)
  ultimately have "length (filter R ys) = length ys"
    using assms(2) by linarith
  moreover from x have "x \<in> set ys" by (simp add: ys_def)
  then have "length (filter R ys) < length ys"
    using x(3) by (rule length_filter_less)
  ultimately show False by simp
qed

lemma total_cells:
  assumes "layout b" "0 \<le> num_mines b" "num_mines b \<le> cols b * rows b - 9"
  shows "cols b * rows b = int (length (cells b)) \<or>
         (cells b = [] \<and> 9 \<le> cols b * rows b - num_mines b)"
proof (cases "0 \<le> cols b \<and> 0 \<le> rows b")
  case True
  with assms(1) show ?thesis by (simp add: layout_def)
next
  case False
  with assms(1) have "cells b = []" by (auto simp: layout_def)
  with assms show ?thesis by simp
qed

text \<open>
  Under the invariant, when the condition of the win check holds every cell without a mine is
  already revealed, so the check reveals nothing: it can only set the flag.
\<close>

lemma all_safe_revealed:
  assumes "board_inv b" "revealed_count b = cols b * rows b - num_mines b" "\<not> game_over b"
  shows "mines_placed b"
    and "\<forall>cell\<in>set (cells b). \<not> is_mine (state cell) \<longrightarrow> is_revealed (state cell)"
proof -
  from assms have lay: "layout b" and nm: "0 \<le> num_mines b" "num_mines b \<le> cols b * rows b - 9"
    by (simp_all add: board_inv_def)
  from assms have rc: "revealed_count b = int (revealed_total b)" and nmr: "no_mine_revealed b"
    by (simp_all add: board_inv_def)
  have rt: "revealed_total b \<le> length (cells b)"
    by (simp add: revealed_total_def)
  show mp: "mines_placed b"
  proof (rule ccontr)
    assume "\<not> mines_placed b"
    with assms have "revealed_count b = 0" by (simp add: board_inv_def)
    with assms(2) nm show False by simp
  qed
  with assms have mt: "int (mine_total b) = num_mines b" by (simp add: board_inv_def)
  from total_cells[OF lay nm] assms(2) rc rt
  have tot: "cols b * rows b = int (length (cells b))" by auto
  show "\<forall>cell\<in>set (cells b). \<not> is_mine (state cell) \<longrightarrow> is_revealed (state cell)"
  proof (rule count_complement)
    show "\<forall>k<length (cells b). is_mine (state (cells b ! k)) \<longrightarrow> \<not> is_revealed (state (cells b ! k))"
      using nmr by (simp add: no_mine_revealed_def)
    show "int (length (filter (\<lambda>cell. is_revealed (state cell)) (cells b))) =
          int (length (cells b)) - int (length (filter (\<lambda>cell. is_mine (state cell)) (cells b)))"
      using assms(2) rc mt tot by (simp add: revealed_total_def mine_total_def)
  qed
qed

lemma check_win_inv:
  assumes "board_inv b"
  shows "check_win b = b \<or> (check_win b = b\<lparr>win := True\<rparr> \<and> \<not> game_over b \<and> mines_placed b \<and>
           revealed_count b = cols b * rows b - num_mines b)"
proof (cases "revealed_count b = cols b * rows b - num_mines b \<and> \<not> game_over b")
  case False
  then show ?thesis by (auto simp: check_win_def Let_def)
next
  case True
  with all_safe_revealed[OF assms] have mp: "mines_placed b"
    and "\<forall>cell\<in>set (cells b). \<not> is_mine (state cell) \<longrightarrow> is_revealed (state cell)" by simp_all
  then have "map (\<lambda>cell. if \<not> is_revealed (state cell) \<and> \<not> is_mine (state cell)
                          then cell\<lparr>state := (state cell)\<lparr>is_revealed := True\<rparr>\<rparr> else cell) (cells b)
             = cells b"
    by (intro map_idI) auto
  with True have "check_win b = b\<lparr>win := True\<rparr>"
    by (simp add: check_win_def Let_def)
  with True mp show ?thesis by simp
qed

lemma no_mine_revealed_proj:
  "no_mine_revealed b \<longleftrightarrow> (\<forall>k<length (cells b). mines_of b ! k \<longrightarrow> \<not> revealed_of b ! k)"
  by (simp add: no_mine_revealed_def mines_of_def revealed_of_def)

lemma board_inv_cong:
  assumes "board_inv b" "same_mines b b'" "revealed_of b' = revealed_of b"
    "mines_placed b' = mines_placed b" "revealed_count b' = revealed_count b"
    "game_over b' = game_over b" "win b' = win b"
  shows "board_inv b'"
proof -
  from assms(1) have lay: "layout b" by (simp add: board_inv_def)
  have len: "length (cells b') = length (cells b)" using assms(2) by (rule same_mines_length)
  have "layout b'" using assms(2) lay by (rule same_mines_layout)
  moreover have "mine_total b' = mine_total b" using assms(2) by (rule same_mines_total)
  moreover have "revealed_total b' = revealed_total b"
    using assms(3) by (simp add: revealed_total_proj)
  moreover have "no_mine_revealed b' = no_mine_revealed b"
    using assms(2,3) len by (simp add: no_mine_revealed_proj same_mines_def)
  moreover have "adjacency_ok b \<Longrightarrow> adjacency_ok b'"
    using assms(2) lay by (rule same_mines_adjacency_ok)
  ultimately show ?thesis
    using assms unfolding board_inv_def same_mines_def by (simp split: if_splits)
qed

lemma length_Board_init_cells:
  "length (cells (Board_init c r m)) = nat c * nat r"
  by (simp add: Board_init_def length_concat comp_def length_py_range sum_list_triv)

lemma set_Board_init_cells:
  "cell \<in> set (cells (Board_init c r m)) \<Longrightarrow>
     state cell = \<lparr>is_mine = False, is_revealed = False, is_flagged = False, adjacent = 0\<rparr>"
  by (auto simp: Board_init_def new_cell_def)

lemma board_inv_init:
  assumes "0 \<le> m" "m \<le> c * r - 9"
  shows "board_inv (Board_init c r m)"
proof -
  let ?b = "Board_init c r m"
  have f: "cols ?b = c" "rows ?b = r" "num_mines ?b = m" "\<not> mines_placed ?b"
    "revealed_count ?b = 0" "\<not> game_over ?b" "\<not> win ?b"
    by (simp_all add: Board_init_def)
  have "layout ?b" by (simp add: layout_def length_Board_init_cells f)
  moreover have "mine_total ?b = 0" "revealed_total ?b = 0"
    by (auto simp: mine_total_def revealed_total_def filter_empty_conv dest: set_Board_init_cells)
  moreover have "no_mine_revealed ?b"
    by (auto simp: no_mine_revealed_def dest!: nth_mem set_Board_init_cells)
  ultimately show ?thesis using assms f by (simp add: board_inv_def)
qed

lemma unplaced_clean:
  assumes "layout b" "mine_total b = 0" "inb b q"
  shows "\<not> is_mine (cell_state b q)"
proof -
  have "cells b ! pos b q \<in> set (cells b)" using assms(1,3) by (simp add: pos_less)
  with assms(2) show ?thesis by (auto simp: mine_total_def filter_empty_conv cell_state_def)
qed

text \<open>
  Placement on a board that satisfies the invariant and has no mines yet: it returns a board,
  the invariant holds again, and the clicked cell and its neighbours hold no mine.
\<close>

lemma board_inv_place:
  assumes inv: "board_inv b" and un: "\<not> mines_placed b" and inb: "is_inbounds b c r"
    and sh: "\<And>xs. mset (sh xs) = mset xs"
  shows "\<exists>b'. place_mines sh b c r = Inr b' \<and> board_inv b' \<and> mines_placed b' \<and>
           keeps b (b'\<lparr>mines_placed := mines_placed b\<rparr>) \<and>
           revealed_of b' = revealed_of b \<and> flags_of b' = flags_of b \<and>
           \<not> is_mine (cell_state b' (c, r)) \<and>
           (\<forall>q\<in>set (neighbors b c r). \<not> is_mine (cell_state b' q))"
proof -
  let ?mp = "mine_positions sh b c r"
  from inv have lay: "layout b" and nm: "0 \<le> num_mines b" "num_mines b \<le> cols b * rows b - 9"
    by (simp_all add: board_inv_def)
  from inv un have clean: "mine_total b = 0" "revealed_total b = 0" "revealed_count b = 0"
    "\<not> game_over b" "\<not> win b" by (simp_all add: board_inv_def)
  from place_mines_spec[OF lay sh, of c r] obtain b' where
    b': "place_mines sh b c r = Inr b'" "keeps b (b'\<lparr>mines_placed := mines_placed b\<rparr>)"
      "mines_placed b'" "revealed_of b' = revealed_of b" "flags_of b' = flags_of b"
      "\<forall>q. inb b q \<longrightarrow> is_mine (cell_state b' q) = (q \<in> set ?mp \<or> is_mine (cell_state b q))"
      "adjacency_ok b'"
    by blast
  from b'(2) have f: "cols b' = cols b" "rows b' = rows b" "num_mines b' = num_mines b"
    "revealed_count b' = revealed_count b" "game_over b' = game_over b" "win b' = win b"
    "length (cells b') = length (cells b)" by (simp_all add: keeps_def)
  have lay': "layout b'" using lay f by (simp add: layout_def)
  have inb': "inb b' = inb b" by (simp add: fun_eq_iff inb_def is_inbounds_def f)
  have mines: "is_mine (cell_state b' q) = (q \<in> set ?mp)" if "inb b q" for q
  proof -
    from b'(6) that have "is_mine (cell_state b' q) = (q \<in> set ?mp \<or> is_mine (cell_state b q))"
      by blast
    with unplaced_clean[OF lay clean(1) that] show ?thesis by simp
  qed
  note mpp = mine_positions_props[OF sh, of b c r]
  have "mine_total b' = length ?mp"
    using lay' mpp(1)
  proof (rule mine_total_positions)
    show "\<forall>p\<in>set ?mp. inb b' p" using mpp(2) by (simp add: inb')
    show "\<forall>q. inb b' q \<longrightarrow> is_mine (cell_state b' q) = (q \<in> set ?mp)"
      using mines by (simp add: inb')
  qed
  then have mt: "int (mine_total b') = num_mines b'"
    using length_mine_positions[OF sh inb nm] by (simp add: f)
  have rt: "revealed_total b' = 0" using b'(4) clean(2) by (simp add: revealed_total_proj)
  then have "no_mine_revealed b'"
    by (auto simp: no_mine_revealed_def revealed_total_def filter_empty_conv)
  with lay' nm mt rt b'(3,7) clean have "board_inv b'"
    by (simp add: board_inv_def f)
  moreover have "\<not> is_mine (cell_state b' (c, r))"
    using mines[of "(c, r)"] mpp(2) inb by (auto simp: inb_def)
  moreover have "\<forall>q\<in>set (neighbors b c r). \<not> is_mine (cell_state b' q)"
    using mines mpp(2) by (auto dest: neighbors_inb)
  ultimately show ?thesis using b'(1-5) by blast
qed

lemma state_mark_revealed:
  "k < length (cells b) \<Longrightarrow>
   state (cells (mark_revealed b k) ! j) =
     (if j = k then (state (cells b ! k))\<lparr>is_revealed := True\<rparr> else state (cells b ! j))"
  by (simp add: mark_revealed_def state_modify_state)

lemma filter_id_update:
  "k < length xs \<Longrightarrow> \<not> xs ! k \<Longrightarrow> length (filter id (xs[k := True])) = Suc (length (filter id xs))"
proof (induction xs arbitrary: k)
  case Nil
  then show ?case by simp
next
  case (Cons x xs)
  then show ?case by (cases k) auto
qed

lemma revealed_total_mark_revealed:
  assumes "k < length (cells b)" "\<not> is_revealed (state (cells b ! k))"
  shows "revealed_total (mark_revealed b k) = Suc (revealed_total b)"
proof -
  from assms have "k < length (revealed_of b)" "\<not> revealed_of b ! k"
    by (simp_all add: revealed_of_def)
  then show ?thesis
    unfolding revealed_total_proj revealed_of_mark_revealed by (rule filter_id_update)
qed

lemma same_mines_mark_revealed: "same_mines b (mark_revealed b k)"
  by (simp add: same_mines_def)

lemma board_inv_mark:
  assumes inv: "board_inv b" and mp: "mines_placed b" and p: "inb b p"
    and closed: "\<not> is_revealed (cell_state b p)" and safe: "\<not> is_mine (cell_state b p)"
  shows "board_inv (mark_revealed b (pos b p))"
proof -
  let ?k = "pos b p"
  let ?b' = "mark_revealed b ?k"
  from inv have lay: "layout b" by (simp add: board_inv_def)
  have lt: "?k < length (cells b)" using lay p by (rule pos_less)
  have sm: "same_mines b ?b'" by (rule same_mines_mark_revealed)
  have "adjacency_ok ?b'" if "adjacency_ok b"
    using sm lay that by (rule same_mines_adjacency_ok)
  moreover have "mine_total ?b' = mine_total b" using sm by (rule same_mines_total)
  moreover have "revealed_total ?b' = Suc (revealed_total b)"
    using lt closed by (simp add: revealed_total_mark_revealed cell_state_def)
  moreover have "no_mine_revealed ?b'" if "no_mine_revealed b"
    using that safe lt by (auto simp: no_mine_revealed_def state_mark_revealed cell_state_def)
  ultimately show ?thesis
    using inv mp by (simp add: board_inv_def)
qed

lemma reveal_all_mines_fields [simp]:
  "cols (reveal_all_mines b) = cols b" "rows (reveal_all_mines b) = rows b"
  "num_mines (reveal_all_mines b) = num_mines b"
  "mines_placed (reveal_all_mines b) = mines_placed b"
  "revealed_count (reveal_all_mines b) = revealed_count b"
  "game_over (reveal_all_mines b) = game_over b" "win (reveal_all_mines b) = win b"
  "length (cells (reveal_all_mines b)) = length (cells b)"
  "mines_of (reveal_all_mines b) = mines_of b" "flags_of (reveal_all_mines b) = flags_of b"
  "adjacents_of (reveal_all_mines b) = adjacents_of b"
  by (simp_all add: reveal_all_mines_def mines_of_def flags_of_def adjacents_of_def)

lemma state_reveal_all_mines:
  "k < length (cells b) \<Longrightarrow>
   state (cells (reveal_all_mines b) ! k) =
     (if is_mine (state (cells b ! k)) then (state (cells b ! k))\<lparr>is_revealed := True\<rparr>
      else state (cells b ! k))"
  by (simp add: reveal_all_mines_def)

lemma same_mines_lose:
  "same_mines b (reveal_all_mines ((mark_revealed b k)\<lparr>game_over := True\<rparr>))"
  by (simp add: same_mines_def)

lemma filter_id_mono:
  "list_all2 (\<longrightarrow>) xs ys \<Longrightarrow> length (filter id xs) \<le> length (filter id ys)"
  by (induction rule: list_all2_induct) auto

lemma revealed_total_mono: "grows b b' \<Longrightarrow> revealed_total b \<le> revealed_total b'"
  by (simp add: revealed_total_proj grows_def filter_id_mono)

lemma board_inv_lose:
  assumes inv: "board_inv b" and mp: "mines_placed b" and p: "inb b p"
    and closed: "\<not> is_revealed (cell_state b p)"
  shows "board_inv (reveal_all_mines ((mark_revealed b (pos b p))\<lparr>game_over := True\<rparr>))"
proof -
  let ?k = "pos b p"
  let ?b' = "reveal_all_mines ((mark_revealed b ?k)\<lparr>game_over := True\<rparr>)"
  from inv have lay: "layout b" by (simp add: board_inv_def)
  have lt: "?k < length (cells b)" using lay p by (rule pos_less)
  have sm: "same_mines b ?b'" by (rule same_mines_lose)
  have "adjacency_ok ?b'" if "adjacency_ok b"
    using sm lay that by (rule same_mines_adjacency_ok)
  moreover have "mine_total ?b' = mine_total b" using sm by (rule same_mines_total)
  moreover have "layout ?b'" using sm lay by (rule same_mines_layout)
  moreover have "Suc (revealed_total b) \<le> revealed_total ?b'"
    using revealed_total_mono[OF grows_reveal_all_mines, of "(mark_revealed b ?k)\<lparr>game_over := True\<rparr>"]
      revealed_total_mark_revealed[OF lt] closed
    by (simp add: cell_state_def)
  ultimately show ?thesis
    using inv mp by (simp add: board_inv_def)
qed

lemma board_inv_check_win:
  assumes "board_inv b"
  shows "board_inv (check_win b)"
proof -
  have "board_inv (b\<lparr>win := True\<rparr>)" if "mines_placed b"
    using assms that by (simp add: board_inv_def adjacency_ok_def no_mine_revealed_def)
  with check_win_inv[OF assms] assms show ?thesis by auto
qed

text \<open>
  \<^verbatim>\<open>reveal\<close> on a board that satisfies the invariant returns a board (no subscript is out
  of range) that satisfies it again.
\<close>

lemma board_inv_reveal:
  assumes sh: "\<And>xs. mset (sh xs) = mset xs" and inv: "board_inv b"
  shows "\<exists>b'. reveal sh b c r = Inr b' \<and> board_inv b'"
    and "\<exists>b'. reveal_each sh b ps = Inr b' \<and> board_inv b'"
proof -
  have lay: "layout b" if "board_inv b" for b using that by (simp add: board_inv_def)
  have place: "\<exists>b'. place_mines sh b c r = Inr b' \<and> board_inv b' \<and> mines_placed b'"
    if "board_inv b" "\<not> mines_placed b" "is_inbounds b c r" for b c r
    using board_inv_place[OF that sh] by blast
  have mark: "board_inv (mark_revealed b (pos b p))"
    if "board_inv b" "mines_placed b" "inb b p" "\<not> is_revealed (cell_state b p)"
      "\<not> is_flagged (cell_state b p)" "\<not> is_mine (cell_state b p)" for b p
    using that by (intro board_inv_mark)
  have lose: "board_inv (reveal_all_mines ((mark_revealed b (pos b p))\<lparr>game_over := True\<rparr>))"
    if "board_inv b" "mines_placed b" "inb b p" "\<not> is_revealed (cell_state b p)"
      "\<not> is_flagged (cell_state b p)" "is_mine (cell_state b p)" for b p
    using that(1,2,3,4) by (rule board_inv_lose)
  have win: "board_inv (check_win b)" if "board_inv b" for b
    using that by (rule board_inv_check_win)
  show "\<exists>b'. reveal sh b c r = Inr b' \<and> board_inv b'"
    by (rule reveal_invariant(1)[where I = board_inv, OF lay place mark lose win inv])
  show "\<exists>b'. reveal_each sh b ps = Inr b' \<and> board_inv b'"
    by (rule reveal_invariant(2)[where I = board_inv, OF lay place mark lose win inv])
qed

subsection \<open>What a call may change\<close>

lemma progress_refl: "progress b b"
  by (simp add: progress_def grows_refl same_mines_refl)

lemma progress_trans: "progress a b \<Longrightarrow> progress b c \<Longrightarrow> progress a c"
  unfolding progress_def by (auto intro: grows_trans same_mines_trans)

lemma grows_mark_revealed: "grows b (mark_revealed b k)"
  using grows_update[of b k] by (simp add: grows_def mark_revealed_def)

lemma progress_mark: "progress b (mark_revealed b k)"
  by (simp add: progress_def grows_mark_revealed same_mines_mark_revealed)

lemma progress_lose: "progress b (reveal_all_mines ((mark_revealed b k)\<lparr>game_over := True\<rparr>))"
proof -
  have "grows (mark_revealed b k) (reveal_all_mines ((mark_revealed b k)\<lparr>game_over := True\<rparr>))"
    using grows_reveal_all_mines[of "(mark_revealed b k)\<lparr>game_over := True\<rparr>"]
    by (simp add: grows_def)
  with grows_mark_revealed[of b k]
  have "grows b (reveal_all_mines ((mark_revealed b k)\<lparr>game_over := True\<rparr>))"
    by (rule grows_trans)
  then show ?thesis by (simp add: progress_def same_mines_lose)
qed

lemma progress_check_win: "progress b (check_win b)"
  by (simp add: progress_def check_win_def Let_def grows_check_win[unfolded check_win_def Let_def]
        same_mines_def mines_of_def adjacents_of_def comp_def)

lemma progress_place:
  assumes "\<not> mines_placed b" "keeps b (b'\<lparr>mines_placed := mines_placed b\<rparr>)"
    "revealed_of b' = revealed_of b"
  shows "progress b b'"
  using assms by (simp add: progress_def keeps_def grows_eq)

text \<open>Flags are the business of \<^verbatim>\<open>toggle_flag\<close> alone.\<close>

lemma flags_of_check_win [simp]: "flags_of (check_win b) = flags_of b"
  by (simp add: check_win_def Let_def flags_of_def comp_def)

lemma reveal_progress:
  assumes sh: "\<And>xs. mset (sh xs) = mset xs" and inv: "board_inv b"
  shows "\<exists>b'. reveal sh b c r = Inr b' \<and> board_inv b' \<and> progress b b' \<and> flags_of b' = flags_of b"
    and "\<exists>b'. reveal_each sh b ps = Inr b' \<and> board_inv b' \<and> progress b b' \<and>
           flags_of b' = flags_of b"
proof -
  let ?I = "\<lambda>x. board_inv x \<and> progress b x \<and> flags_of x = flags_of b"
  have init: "?I b" using inv by (simp add: progress_refl)
  have lay: "layout x" if "?I x" for x using that by (simp add: board_inv_def)
  have place: "\<exists>x'. place_mines sh x c r = Inr x' \<and> ?I x' \<and> mines_placed x'"
    if "?I x" "\<not> mines_placed x" "is_inbounds x c r" for x c r
  proof -
    from that have "board_inv x" by simp
    from board_inv_place[OF this that(2,3) sh] obtain x' where
      x': "place_mines sh x c r = Inr x'" "board_inv x'" "mines_placed x'"
        "keeps x (x'\<lparr>mines_placed := mines_placed x\<rparr>)" "revealed_of x' = revealed_of x"
        "flags_of x' = flags_of x" by blast
    from that(2) x'(4,5) have "progress x x'" by (rule progress_place)
    with that(1) have "progress b x'" by (blast intro: progress_trans)
    with x' that(1) show ?thesis by simp
  qed
  have mark: "?I (mark_revealed x (pos x p))"
    if "?I x" "mines_placed x" "inb x p" "\<not> is_revealed (cell_state x p)"
      "\<not> is_flagged (cell_state x p)" "\<not> is_mine (cell_state x p)" for x p
    using that board_inv_mark[of x p] progress_trans[OF _ progress_mark[of x "pos x p"], of b]
    by simp
  have lose: "?I (reveal_all_mines ((mark_revealed x (pos x p))\<lparr>game_over := True\<rparr>))"
    if "?I x" "mines_placed x" "inb x p" "\<not> is_revealed (cell_state x p)"
      "\<not> is_flagged (cell_state x p)" "is_mine (cell_state x p)" for x p
    using that(1,2) board_inv_lose[of x p] that(3,4)
      progress_trans[OF _ progress_lose[of x "pos x p"], of b]
    by simp
  have win: "?I (check_win x)" if "?I x" for x
    using that board_inv_check_win[of x] progress_trans[OF _ progress_check_win[of x], of b]
    by simp
  show "\<exists>b'. reveal sh b c r = Inr b' \<and> board_inv b' \<and> progress b b' \<and> flags_of b' = flags_of b"
    by (rule reveal_invariant(1)[where I = ?I, OF lay place mark lose win init])
  show "\<exists>b'. reveal_each sh b ps = Inr b' \<and> board_inv b' \<and> progress b b' \<and>
          flags_of b' = flags_of b"
    by (rule reveal_invariant(2)[where I = ?I, OF lay place mark lose win init])
qed

subsection \<open>Boards between calls\<close>

lemma check_win_settled:
  assumes "board_inv b" "settled b"
  shows "check_win b = b"
proof -
  have "b\<lparr>win := True\<rparr> = b" if "win b" using that by (cases b) simp
  with check_win_inv[OF assms(1)] assms(2) show ?thesis by (auto simp: settled_def)
qed

lemma settled_check_win:
  assumes "board_inv b"
  shows "settled (check_win b)"
proof (cases "revealed_count b = cols b * rows b - num_mines b \<and> \<not> game_over b")
  case True
  then show ?thesis by (simp add: settled_def check_win_def Let_def)
next
  case False
  then show ?thesis by (auto simp: settled_def check_win_def Let_def)
qed

lemma flip_flag_fields [simp]:
  "cols (flip_flag b k) = cols b" "rows (flip_flag b k) = rows b"
  "num_mines (flip_flag b k) = num_mines b" "mines_placed (flip_flag b k) = mines_placed b"
  "revealed_count (flip_flag b k) = revealed_count b"
  "game_over (flip_flag b k) = game_over b" "win (flip_flag b k) = win b"
  "length (cells (flip_flag b k)) = length (cells b)"
  "mines_of (flip_flag b k) = mines_of b" "adjacents_of (flip_flag b k) = adjacents_of b"
  "revealed_of (flip_flag b k) = revealed_of b"
  by (simp_all add: flip_flag_def proj_modify_state revealed_of_modify_state_keep)

lemma board_inv_flip_flag: "board_inv b \<Longrightarrow> board_inv (flip_flag b k)"
  by (erule board_inv_cong) (simp_all add: same_mines_def)

lemma settled_flip_flag: "settled (flip_flag b k) = settled b"
  by (simp add: settled_def)

text \<open>Between calls, \<^verbatim>\<open>toggle_flag\<close> does nothing but flip the flag of an unrevealed cell.\<close>

lemma toggle_flag_exact:
  assumes "board_inv b" "settled b"
  shows "toggle_flag b c r =
     Inr (if is_inbounds b c r \<and> \<not> is_revealed (cell_state b (c, r))
          then flip_flag b (pos b (c, r)) else b)"
proof (cases "is_inbounds b c r")
  case False
  then show ?thesis by (simp add: toggle_flag_def)
next
  case True
  from assms(1) have "layout b" by (simp add: board_inv_def)
  then have loc: "locate b c r = Inr (pos b (c, r))" using True by (rule locate_pos)
  have "check_win (flip_flag b (pos b (c, r))) = flip_flag b (pos b (c, r))"
    using assms by (intro check_win_settled board_inv_flip_flag) (simp_all add: settled_flip_flag)
  with True loc show ?thesis
    by (simp add: toggle_flag_def cell_state_def flip_flag_def)
qed

lemma toggle_flag_inv:
  assumes "board_inv b" "settled b"
  shows "\<exists>b'. toggle_flag b c r = Inr b' \<and> board_inv b' \<and> settled b'"
  using assms by (simp add: toggle_flag_exact board_inv_flip_flag settled_flip_flag)

lemma settled_scalars:
  assumes "settled b" "cols b' = cols b" "rows b' = rows b" "num_mines b' = num_mines b"
    "revealed_count b' = revealed_count b" "game_over b' = game_over b" "win b' = win b"
  shows "settled b'"
  using assms by (simp add: settled_def)

lemma reveal_settled:
  assumes sh: "\<And>xs. mset (sh xs) = mset xs" and inv: "board_inv b" and st: "settled b"
    and res: "reveal sh b c r = Inr b'"
  shows "settled b'"
proof (cases "is_inbounds b c r")
  case False
  with res st show ?thesis by (simp add: reveal_out_of_bounds)
next
  case inb: True
  have "\<exists>b1. (if \<not> mines_placed b then place_mines sh b c r else Inr b) = Inr b1 \<and> board_inv b1 \<and>
          mines_placed b1 \<and> keeps b (b1\<lparr>mines_placed := mines_placed b\<rparr>)"
  proof (cases "mines_placed b")
    case True
    with inv show ?thesis by (simp add: keeps_def)
  next
    case False
    with board_inv_place[OF inv False inb sh] show ?thesis by auto
  qed
  then obtain b1 where
    b1: "(if \<not> mines_placed b then place_mines sh b c r else Inr b) = Inr b1"
    and inv1: "board_inv b1" and mp1: "mines_placed b1"
    and k1: "keeps b (b1\<lparr>mines_placed := mines_placed b\<rparr>)" by blast
  from k1 have f: "cols b1 = cols b" "rows b1 = rows b" "num_mines b1 = num_mines b"
    "revealed_count b1 = revealed_count b" "game_over b1 = game_over b" "win b1 = win b"
    by (simp_all add: keeps_def)
  have st1: "settled b1" using st f by (rule settled_scalars)
  from inv1 have lay1: "layout b1" by (simp add: board_inv_def)
  note unf = reveal_unfold[OF inb b1 lay1 f(1,2)]
  let ?p = "(c, r)"
  let ?b2 = "mark_revealed b1 (pos b1 ?p)"
  from inb f have p1: "inb b1 ?p" by (simp add: inb_def is_inbounds_def)
  show ?thesis
  proof (cases "is_revealed (cell_state b1 ?p) \<or> is_flagged (cell_state b1 ?p)")
    case True
    with unf res st1 show ?thesis by simp
  next
    case closed: False
    show ?thesis
    proof (cases "is_mine (cell_state b1 ?p)")
      case True
      with unf res closed have "game_over b'" by auto
      then show ?thesis by (simp add: settled_def)
    next
      case safe: False
      from inv1 mp1 p1 closed safe have inv2: "board_inv ?b2" by (intro board_inv_mark) auto
      have "\<exists>b3. (if adjacent (cell_state b1 ?p) = 0
                   then reveal_each sh ?b2 (neighbors b1 c r) else Inr ?b2) = Inr b3 \<and> board_inv b3"
        using board_inv_reveal(2)[OF sh inv2, of "neighbors b1 c r"] inv2 by auto
      then obtain b3 where "(if adjacent (cell_state b1 ?p) = 0
                   then reveal_each sh ?b2 (neighbors b1 c r) else Inr ?b2) = Inr b3"
        and "board_inv b3" by blast
      with unf res closed safe have "b' = check_win b3" by simp
      with \<open>board_inv b3\<close> show ?thesis by (simp add: settled_check_win)
    qed
  qed
qed

text \<open>
  Every run from a board constructed with \<open>0 \<le> mines \<le> cols * rows - 9\<close> returns a board:
  no call raises, and the invariant holds of the result.
\<close>

lemma between_calls_init:
  assumes "0 \<le> m" "m \<le> c * r - 9"
  shows "between_calls (Board_init c r m)"
  using assms board_inv_init[OF assms]
  by (simp add: between_calls_def settled_def Board_init_def)

lemma between_calls_step:
  assumes sh: "\<And>xs. mset (sh xs) = mset xs" and "between_calls b"
  shows "\<exists>b'. step sh b a = Inr b' \<and> between_calls b'"
proof (cases a)
  case (Reveal c r)
  from assms have inv: "board_inv b" and st: "settled b" by (simp_all add: between_calls_def)
  from board_inv_reveal(1)[OF sh inv, of c r] obtain b' where
    b': "reveal sh b c r = Inr b'" "board_inv b'" by blast
  with reveal_settled[OF sh inv st b'(1)] Reveal show ?thesis
    by (simp add: between_calls_def)
next
  case (ToggleFlag c r)
  with assms(2) toggle_flag_inv[of b c r] show ?thesis by (simp add: between_calls_def)
qed

lemma between_calls_run:
  assumes sh: "\<And>xs. mset (sh xs) = mset xs" and "between_calls b"
  shows "\<exists>b'. run sh b as = Inr b' \<and> between_calls b'"
  using assms(2)
proof (induction as arbitrary: b)
  case Nil
  then show ?case by simp
next
  case (Cons a as)
  from between_calls_step[OF sh Cons.prems, of a] obtain b1 where
    "step sh b a = Inr b1" "between_calls b1" by blast
  with Cons.IH[of b1] show ?case by simp
qed

lemma run_returns:
  assumes sh: "\<And>xs. mset (sh xs) = mset xs" and "0 \<le> m" "m \<le> c * r - 9"
  shows "\<exists>b. run sh (Board_init c r m) as = Inr b"
  using between_calls_run[OF sh between_calls_init[OF assms(2,3)], of as] by blast

lemma reachable_between_calls:
  assumes sh: "\<And>xs. mset (sh xs) = mset xs" and "0 \<le> m" "m \<le> c * r - 9"
    and "run sh (Board_init c r m) as = Inr b"
  shows "between_calls b"
  using between_calls_run[OF sh between_calls_init[OF assms(2,3)], of as] assms(4) by simp

subsection \<open>The neighbours of a cell\<close>

lemma set_neighbors:
  "set (neighbors b c r) =
     {(x, y). is_inbounds b x y \<and> (x, y) \<noteq> (c, r) \<and> \<bar>x - c\<bar> \<le> 1 \<and> \<bar>y - r\<bar> \<le> 1}"
proof -
  have "(\<exists>d\<in>set deltas. x = c + fst d \<and> y = r + snd d) \<longleftrightarrow>
        (x, y) \<noteq> (c, r) \<and> \<bar>x - c\<bar> \<le> 1 \<and> \<bar>y - r\<bar> \<le> 1" for x y
  proof
    assume "\<exists>d\<in>set deltas. x = c + fst d \<and> y = r + snd d"
    then show "(x, y) \<noteq> (c, r) \<and> \<bar>x - c\<bar> \<le> 1 \<and> \<bar>y - r\<bar> \<le> 1"
      by (auto simp: deltas_def)
  next
    assume a: "(x, y) \<noteq> (c, r) \<and> \<bar>x - c\<bar> \<le> 1 \<and> \<bar>y - r\<bar> \<le> 1"
    then have "x - c \<in> {-1, 0, 1}" "y - r \<in> {-1, 0, 1}" by auto
    moreover from a have "\<not> (x - c = 0 \<and> y - r = 0)" by auto
    ultimately have "(x - c, y - r) \<in> set deltas" by (auto simp: deltas_def)
    then show "\<exists>d\<in>set deltas. x = c + fst d \<and> y = r + snd d"
      by (intro bexI[of _ "(x - c, y - r)"]) auto
  qed
  then show ?thesis by (auto simp: neighbors_def image_iff split_beta)
qed

lemma distinct_neighbors: "distinct (neighbors b c r)"
proof -
  have "distinct deltas" by (simp add: deltas_def)
  then have "distinct (map (\<lambda>(dc, dr). (c + dc, r + dr)) deltas)"
    by (simp add: distinct_map inj_on_def split_beta prod_eq_iff)
  then show ?thesis by (simp add: neighbors_def)
qed

subsection \<open>Adjacency counts on every board, whatever the configuration\<close>

lemma check_win_fields [simp]:
  "cols (check_win b) = cols b" "rows (check_win b) = rows b"
  "num_mines (check_win b) = num_mines b" "mines_placed (check_win b) = mines_placed b"
  "revealed_count (check_win b) = revealed_count b" "game_over (check_win b) = game_over b"
  "length (cells (check_win b)) = length (cells b)"
  "mines_of (check_win b) = mines_of b" "adjacents_of (check_win b) = adjacents_of b"
  by (simp_all add: check_win_def Let_def mines_of_def adjacents_of_def comp_def)

lemma same_mines_check_win: "same_mines b (check_win b)"
  by (simp add: same_mines_def)

lemma placed_ok_same_mines:
  assumes "placed_ok b" "same_mines b b'" "mines_placed b' = mines_placed b"
  shows "placed_ok b'"
  using assms same_mines_layout[of b b'] same_mines_adjacency_ok[of b b']
  by (auto simp: placed_ok_def)

lemma placed_ok_reveal:
  assumes sh: "\<And>xs. mset (sh xs) = mset xs" and ok: "placed_ok b"
  shows "\<exists>b'. reveal sh b c r = Inr b' \<and> placed_ok b'"
proof (rule reveal_invariant(1)[where I = placed_ok])
  show "placed_ok b" by (rule ok)
  show "layout x" if "placed_ok x" for x using that by (simp add: placed_ok_def)
  show "\<exists>x'. place_mines sh x c r = Inr x' \<and> placed_ok x' \<and> mines_placed x'"
    if "placed_ok x" "\<not> mines_placed x" "is_inbounds x c r" for x c r
  proof -
    from that have lay: "layout x" by (simp add: placed_ok_def)
    from place_mines_spec[OF lay sh, of c r] obtain x' where
      x': "place_mines sh x c r = Inr x'" "keeps x (x'\<lparr>mines_placed := mines_placed x\<rparr>)"
        "mines_placed x'" "adjacency_ok x'" by blast
    from x'(2) lay have "layout x'" by (simp add: keeps_def layout_def)
    with x' show ?thesis by (auto simp: placed_ok_def)
  qed
  show "placed_ok (mark_revealed x (pos x p))" if "placed_ok x" for x p
    using that by (rule placed_ok_same_mines) (simp_all add: same_mines_mark_revealed)
  show "placed_ok (reveal_all_mines ((mark_revealed x (pos x p))\<lparr>game_over := True\<rparr>))"
    if "placed_ok x" for x p
    using that by (rule placed_ok_same_mines) (simp_all add: same_mines_lose)
  show "placed_ok (check_win x)" if "placed_ok x" for x
    using that by (rule placed_ok_same_mines) (simp_all add: same_mines_check_win)
qed

lemma placed_ok_toggle_flag:
  assumes "placed_ok b"
  shows "\<exists>b'. toggle_flag b c r = Inr b' \<and> placed_ok b'"
proof (cases "is_inbounds b c r")
  case False
  with assms show ?thesis by (simp add: toggle_flag_def)
next
  case True
  from assms have "layout b" by (simp add: placed_ok_def)
  then have loc: "locate b c r = Inr (pos b (c, r))" using True by (rule locate_pos)
  have "placed_ok (check_win (flip_flag b (pos b (c, r))))"
    using assms
    by (rule placed_ok_same_mines)
       (simp_all add: same_mines_trans[OF _ same_mines_check_win] same_mines_def)
  with True loc assms show ?thesis
    by (simp add: toggle_flag_def flip_flag_def)
qed

lemma placed_ok_run:
  assumes sh: "\<And>xs. mset (sh xs) = mset xs" and "placed_ok b"
  shows "\<exists>b'. run sh b as = Inr b' \<and> placed_ok b'"
  using assms(2)
proof (induction as arbitrary: b)
  case Nil
  then show ?case by simp
next
  case (Cons a as)
  have "\<exists>b1. step sh b a = Inr b1 \<and> placed_ok b1"
    using placed_ok_reveal[OF sh Cons.prems] placed_ok_toggle_flag[OF Cons.prems]
    by (cases a) simp_all
  then obtain b1 where "step sh b a = Inr b1" "placed_ok b1" by blast
  with Cons.IH[of b1] show ?case by simp
qed

lemma placed_ok_init: "placed_ok (Board_init c r m)"
  by (simp add: placed_ok_def layout_def length_Board_init_cells) (simp add: Board_init_def)

subsection \<open>Runs, flags, and the loss\<close>

lemma reveal_after_place:
  assumes "is_inbounds b c r" "\<not> mines_placed b" "place_mines sh b c r = Inr b1" "mines_placed b1"
  shows "reveal sh b c r = reveal sh b1 c r"
proof -
  from place_mines_dims[OF assms(3)] assms(1) have "is_inbounds b1 c r"
    by (simp add: is_inbounds_def)
  with assms show ?thesis
    by (subst reveal.simps[of sh b c r], subst reveal.simps[of sh b1 c r]) simp
qed

lemma progress_flip_flag: "progress b (flip_flag b k)"
  by (simp add: progress_def grows_eq same_mines_def)

lemma step_progress:
  assumes sh: "\<And>xs. mset (sh xs) = mset xs" and bc: "between_calls b"
    and st: "step sh b a = Inr b'"
  shows "progress b b'"
proof (cases a)
  case (Reveal c r)
  from bc have "board_inv b" by (simp add: between_calls_def)
  from reveal_progress(1)[OF sh this, of c r] st Reveal show ?thesis by auto
next
  case (ToggleFlag c r)
  from bc have "board_inv b" "settled b" by (simp_all add: between_calls_def)
  from toggle_flag_exact[OF this, of c r] st ToggleFlag show ?thesis
    by (auto simp: progress_flip_flag progress_refl split: if_splits)
qed

lemma run_progress:
  assumes sh: "\<And>xs. mset (sh xs) = mset xs" and "between_calls b" "run sh b as = Inr b'"
  shows "progress b b'"
  using assms(2,3)
proof (induction as arbitrary: b)
  case Nil
  then show ?case by (simp add: progress_refl)
next
  case (Cons a as)
  from between_calls_step[OF sh Cons.prems(1), of a] obtain b1 where
    b1: "step sh b a = Inr b1" "between_calls b1" by blast
  with Cons.prems(2) have "run sh b1 as = Inr b'" by simp
  with Cons.IH[OF b1(2)] have "progress b1 b'" .
  with step_progress[OF sh Cons.prems(1) b1(1)] show ?case by (rule progress_trans)
qed

lemma reachable_config:
  assumes sh: "\<And>xs. mset (sh xs) = mset xs" and "0 \<le> m" "m \<le> c * r - 9"
    and "run sh (Board_init c r m) as = Inr b"
  shows "cols b = c" "rows b = r" "num_mines b = m"
  using run_progress[OF sh between_calls_init[OF assms(2,3)] assms(4)]
  by (simp_all add: progress_def Board_init_def)

lemma flip_flag_twice:
  assumes "k < length (cells b)"
  shows "flip_flag (flip_flag b k) k = b"
proof -
  have "(cells b)[k := cells b ! k] = cells b" by simp
  with assms show ?thesis
    by (simp add: flip_flag_def modify_state_def)
qed

lemma fold_count:
  "fold (\<lambda>x n. if P x then n + 1 else n) xs (m :: int) = m + int (length (filter P xs))"
  by (induction xs arbitrary: m) simp_all

lemma flagged_count_flags: "flagged_count b = int (length (filter id (flags_of b)))"
  by (simp add: flagged_count_def fold_count flags_of_def filter_map comp_def)

lemma filter_id_set:
  "k < length xs \<Longrightarrow>
   int (length (filter id (xs[k := v]))) =
     int (length (filter id xs)) + (if v then 1 else 0) - (if xs ! k then 1 else 0)"
proof (induction xs arbitrary: k)
  case Nil
  then show ?case by simp
next
  case (Cons x xs)
  show ?case
  proof (cases k)
    case 0
    then show ?thesis by simp
  next
    case (Suc j)
    with Cons.prems have "j < length xs" by simp
    from Cons.IH[OF this] Suc show ?thesis
      by (cases v; cases "xs ! j"; cases x; simp)
  qed
qed

lemma flags_of_flip_flag:
  "flags_of (flip_flag b k) = (flags_of b)[k := \<not> is_flagged (state (cells b ! k))]"
  by (simp add: flip_flag_def flags_of_def modify_state_def map_update)

lemma flagged_count_flip_flag:
  assumes "k < length (cells b)"
  shows "flagged_count (flip_flag b k) =
           flagged_count b + (if is_flagged (state (cells b ! k)) then - 1 else 1)"
proof -
  from assms have "flags_of b ! k = is_flagged (state (cells b ! k))" "k < length (flags_of b)"
    by (simp_all add: flags_of_def)
  with filter_id_set[of k "flags_of b" "\<not> flags_of b ! k"] show ?thesis
    by (simp add: flagged_count_flags flags_of_flip_flag)
qed

text \<open>The board \<^verbatim>\<open>reveal\<close> returns when the cell is an unrevealed, unflagged mine.\<close>

lemma reveal_mine:
  assumes "layout b" "mines_placed b" "is_inbounds b c r"
    "\<not> is_revealed (cell_state b (c, r))" "\<not> is_flagged (cell_state b (c, r))"
    "is_mine (cell_state b (c, r))"
  shows "reveal sh b c r =
           Inr (reveal_all_mines ((mark_revealed b (pos b (c, r)))\<lparr>game_over := True\<rparr>))"
  using reveal_unfold[of b c r sh b] assms by simp

lemma nth_cells_lose:
  assumes "k < length (cells b)" "j < length (cells b)"
  shows "state (cells (reveal_all_mines ((mark_revealed b k)\<lparr>game_over := True\<rparr>)) ! j) =
           (if is_mine (state (cells b ! j)) \<or> j = k
            then (state (cells b ! j))\<lparr>is_revealed := True\<rparr> else state (cells b ! j))"
    and "\<not> is_mine (state (cells b ! j)) \<Longrightarrow> j \<noteq> k \<Longrightarrow>
         cells (reveal_all_mines ((mark_revealed b k)\<lparr>game_over := True\<rparr>)) ! j = cells b ! j"
  using assms
  by (auto simp: reveal_all_mines_def mark_revealed_def modify_state_def nth_list_update)

subsection \<open>The region a reveal floods\<close>



















subsection \<open>Shuffles for the examples\<close>

lemma mset_keep_order: "mset (keep_order xs) = mset xs"
  by (simp add: keep_order_def)


section \<open>The claims\<close>

text \<open>
  A reachable board is the result of a run of \<^verbatim>\<open>reveal\<close> and \<^verbatim>\<open>toggle_flag\<close> calls from a
  freshly constructed board. The shuffle is any function that permutes its argument. The
  spec leaves the behaviour undefined when the board is constructed with more mines than
  \<open>cols * rows - 9\<close>, so the claims about reachable boards are stated for boards
  constructed with \<open>0 \<le> mines \<le> cols * rows - 9\<close>.
\<close>

text \<open>
  C1, as the code has it. Along every run from a board constructed with
  \<open>0 \<le> mines \<le> cols * rows - 9\<close>: \<open>game_over\<close> and \<open>win\<close> are never reset, so each is set at
  most once; once \<open>game_over\<close> is true the win check leaves \<open>win\<close> as it is; and once the
  mines are placed no call changes a cell's \<open>is_mine\<close> or \<open>adjacent\<close>. The board has no
  guard on \<open>game_over\<close> or \<open>win\<close> in \<^verbatim>\<open>reveal\<close> or \<^verbatim>\<open>toggle_flag\<close>: both still reveal
  cells, flip flags and advance the counter after the game has ended.
\<close>

theorem flags_never_reset:
  assumes sh: "\<And>xs. mset (sh xs) = mset xs"
    and cfg: "0 \<le> mines" "mines \<le> cols0 * rows0 - 9"
    and run: "run sh (Board_init cols0 rows0 mines) as = Inr b"
    and later: "run sh b as' = Inr b'"
  shows "(game_over b \<longrightarrow> game_over b') \<and> (win b \<longrightarrow> win b') \<and>
         (game_over b \<longrightarrow> win b' = win b) \<and>
         (mines_placed b \<longrightarrow> mines_of b' = mines_of b \<and> adjacents_of b' = adjacents_of b)"
  using run_progress[OF sh reachable_between_calls[OF sh cfg run] later]
  by (simp add: progress_def same_mines_def)

theorem flags_never_reset_witness:
  "game_over (row10 [Reveal 0 0, Reveal 2 0]) \<and> \<not> win (row10 [Reveal 0 0, Reveal 2 0]) \<and>
   game_over (row10 [Reveal 0 0, Reveal 2 0, Reveal 9 0]) \<and>
   \<not> win (row10 [Reveal 0 0, Reveal 2 0, Reveal 9 0]) \<and>
   mines_of (row10 [Reveal 0 0, Reveal 2 0, Reveal 9 0]) = mines_of (row10 [Reveal 0 0, Reveal 2 0])"
proof -
  let ?b = "row10 [Reveal 0 0, Reveal 2 0]"
  let ?b' = "row10 [Reveal 0 0, Reveal 2 0, Reveal 9 0]"
  have r: "run keep_order (Board_init 10 1 1) [Reveal 0 0, Reveal 2 0] = Inr ?b" by code_simp
  have l: "run keep_order ?b [Reveal 9 0] = Inr ?b'" by code_simp
  have g: "game_over ?b" by code_simp
  have w: "\<not> win ?b" by code_simp
  have p: "mines_placed ?b" by code_simp
  from flags_never_reset[OF mset_keep_order _ _ r l] g w p show ?thesis by simp
qed

text \<open>
  The claim as stated fails on the board of ten columns and one row with one mine. With the
  mine at column 2: after the loss, \<^verbatim>\<open>reveal(9, 0)\<close> reveals seven more cells and
  \<^verbatim>\<open>toggle_flag(5, 0)\<close> sets a flag. With the mine at column 9: the first click wins, and a
  click on the mine then sets \<open>game_over\<close> while \<open>win\<close> stays true.
\<close>

theorem terminal_state_counterexample:
  "game_over (row10 [Reveal 0 0, Reveal 2 0]) \<and>
   revealed_count (row10 [Reveal 0 0, Reveal 2 0]) = 3 \<and>
   \<not> isl (run keep_order (Board_init 10 1 1) [Reveal 0 0, Reveal 2 0, Reveal 9 0]) \<and>
   revealed_count (row10 [Reveal 0 0, Reveal 2 0, Reveal 9 0]) = 10 \<and>
   revealed_total (row10 [Reveal 0 0, Reveal 2 0]) = 3 \<and>
   revealed_total (row10 [Reveal 0 0, Reveal 2 0, Reveal 9 0]) = 10 \<and>
   flagged_count (row10 [Reveal 0 0, Reveal 2 0]) = 0 \<and>
   flagged_count (row10 [Reveal 0 0, Reveal 2 0, ToggleFlag 5 0]) = 1 \<and>
   win (row10_rev [Reveal 0 0]) \<and> \<not> game_over (row10_rev [Reveal 0 0]) \<and>
   \<not> isl (run rev (Board_init 10 1 1) [Reveal 0 0, Reveal 9 0]) \<and>
   win (row10_rev [Reveal 0 0, Reveal 9 0]) \<and> game_over (row10_rev [Reveal 0 0, Reveal 9 0])"
  by code_simp

text \<open>
  C2, as the code has it. On a board reachable from one constructed with
  \<open>0 \<le> mines \<le> cols * rows - 9\<close>, \<^verbatim>\<open>reveal\<close> returns the board unchanged when the
  coordinate is out of bounds, and, once the mines are placed, when the cell is already
  revealed or flagged. While the mines are not yet placed, an in-bounds call places them
  before it looks at the cell: on a flagged cell it returns the board that
  \<^verbatim>\<open>place_mines\<close> leaves, with every \<open>is_revealed\<close> and \<open>is_flagged\<close>, the counter,
  \<open>game_over\<close> and \<open>win\<close> as before.
\<close>

theorem reveal_no_op:
  assumes sh: "\<And>xs. mset (sh xs) = mset xs"
    and cfg: "0 \<le> mines" "mines \<le> cols0 * rows0 - 9"
    and run: "run sh (Board_init cols0 rows0 mines) as = Inr b"
  shows "(\<not> is_inbounds b c r \<longrightarrow> reveal sh b c r = Inr b) \<and>
         (is_inbounds b c r \<and>
          (is_revealed (cell_state b (c, r)) \<or> is_flagged (cell_state b (c, r))) \<longrightarrow>
            (if mines_placed b then reveal sh b c r = Inr b
             else \<exists>b'. reveal sh b c r = Inr b' \<and> place_mines sh b c r = Inr b' \<and>
                    revealed_of b' = revealed_of b \<and> flags_of b' = flags_of b \<and>
                    revealed_count b' = revealed_count b \<and> game_over b' = game_over b \<and>
                    win b' = win b))"
proof (intro conjI impI)
  assume "\<not> is_inbounds b c r"
  then show "reveal sh b c r = Inr b" by (rule reveal_out_of_bounds)
next
  assume a: "is_inbounds b c r \<and>
             (is_revealed (cell_state b (c, r)) \<or> is_flagged (cell_state b (c, r)))"
  from reachable_between_calls[OF sh cfg run] have inv: "board_inv b"
    by (simp add: between_calls_def)
  then have lay: "layout b" by (simp add: board_inv_def)
  from a have p: "inb b (c, r)" by (simp add: inb_def)
  show "if mines_placed b then reveal sh b c r = Inr b
        else \<exists>b'. reveal sh b c r = Inr b' \<and> place_mines sh b c r = Inr b' \<and>
               revealed_of b' = revealed_of b \<and> flags_of b' = flags_of b \<and>
               revealed_count b' = revealed_count b \<and> game_over b' = game_over b \<and>
               win b' = win b"
  proof (cases "mines_placed b")
    case True
    with reveal_unfold[of b c r sh b] a lay show ?thesis by simp
  next
    case False
    from board_inv_place[OF inv False _ sh, of c r] a obtain b1 where
      b1: "place_mines sh b c r = Inr b1" "board_inv b1"
        "keeps b (b1\<lparr>mines_placed := mines_placed b\<rparr>)"
        "revealed_of b1 = revealed_of b" "flags_of b1 = flags_of b" by blast
    from b1(3) have f: "cols b1 = cols b" "rows b1 = rows b"
      "revealed_count b1 = revealed_count b" "game_over b1 = game_over b" "win b1 = win b"
      by (simp_all add: keeps_def)
    from b1(2) have lay1: "layout b1" by (simp add: board_inv_def)
    have p1: "inb b1 (c, r)" "pos b1 (c, r) = pos b (c, r)"
      using p by (simp_all add: inb_def is_inbounds_def pos_def index_def f)
    have "is_revealed (cell_state b1 (c, r)) = is_revealed (cell_state b (c, r))"
      "is_flagged (cell_state b1 (c, r)) = is_flagged (cell_state b (c, r))"
      using proj_nth(2,3)[OF lay1 p1(1)] proj_nth(2,3)[OF lay p] b1(4,5) p1(2) by simp_all
    with reveal_unfold[of b c r sh b1] a False b1(1) lay1 f(1,2)
    have "reveal sh b c r = Inr b1" by simp
    with False b1 f show ?thesis by simp
  qed
qed

theorem reveal_no_op_witness:
  "reveal keep_order (row10 [Reveal 0 0, ToggleFlag 5 0]) (- 1) 0 =
     Inr (row10 [Reveal 0 0, ToggleFlag 5 0]) \<and>
   reveal keep_order (row10 [Reveal 0 0, ToggleFlag 5 0]) 0 0 =
     Inr (row10 [Reveal 0 0, ToggleFlag 5 0]) \<and>
   reveal keep_order (row10 [Reveal 0 0, ToggleFlag 5 0]) 5 0 =
     Inr (row10 [Reveal 0 0, ToggleFlag 5 0])"
proof -
  let ?b = "row10 [Reveal 0 0, ToggleFlag 5 0]"
  have r: "run keep_order (Board_init 10 1 1) [Reveal 0 0, ToggleFlag 5 0] = Inr ?b"
    by code_simp
  have o: "\<not> is_inbounds ?b (- 1) 0" by code_simp
  have i: "is_inbounds ?b 0 0" "is_inbounds ?b 5 0" by code_simp+
  have v: "is_revealed (cell_state ?b (0, 0))" by code_simp
  have f: "is_flagged (cell_state ?b (5, 0))" by code_simp
  have p: "mines_placed ?b" by code_simp
  from reveal_no_op[OF mset_keep_order _ _ r, of "- 1" 0]
    reveal_no_op[OF mset_keep_order _ _ r, of 0 0]
    reveal_no_op[OF mset_keep_order _ _ r, of 5 0] o i v f p
  show ?thesis by simp
qed

text \<open>
  The claim as stated fails on the board of ten columns and one row with one mine: flag
  column 0 on the fresh board, then call \<^verbatim>\<open>reveal(0, 0)\<close>. The cell is flagged and stays
  unrevealed, yet the mines are now placed: \<open>mines_placed\<close> is true, column 2 holds a mine
  and column 1 has \<open>adjacent = 1\<close>.
\<close>

theorem reveal_no_op_counterexample:
  "is_inbounds (row10 [ToggleFlag 0 0]) 0 0 \<and>
   is_flagged (cell_state (row10 [ToggleFlag 0 0]) (0, 0)) \<and>
   \<not> mines_placed (row10 [ToggleFlag 0 0]) \<and>
   \<not> is_mine (cell_state (row10 [ToggleFlag 0 0]) (2, 0)) \<and>
   adjacent (cell_state (row10 [ToggleFlag 0 0]) (1, 0)) = 0 \<and>
   \<not> isl (reveal keep_order (row10 [ToggleFlag 0 0]) 0 0) \<and>
   mines_placed (projr (reveal keep_order (row10 [ToggleFlag 0 0]) 0 0)) \<and>
   is_mine (cell_state (projr (reveal keep_order (row10 [ToggleFlag 0 0]) 0 0)) (2, 0)) \<and>
   adjacent (cell_state (projr (reveal keep_order (row10 [ToggleFlag 0 0]) 0 0)) (1, 0)) = 1 \<and>
   \<not> is_revealed (cell_state (projr (reveal keep_order (row10 [ToggleFlag 0 0]) 0 0)) (0, 0))"
  by code_simp

text \<open>
  C3. On a board constructed with \<open>0 \<le> mines \<le> cols * rows - 9\<close> whose mines are not yet
  placed, \<^verbatim>\<open>reveal\<close> at an in-bounds coordinate returns a board on which the mines are
  placed, exactly \<open>mines\<close> cells hold a mine, and neither the clicked cell nor any of its
  in-bounds neighbours does. The mine count is a count, hence not negative: the slice
  \<^verbatim>\<open>pool[:num_mines]\<close> of a negative number is not the empty list.
\<close>

theorem first_click_placement:
  assumes sh: "\<And>xs. mset (sh xs) = mset xs"
    and cfg: "0 \<le> mines" "mines \<le> cols0 * rows0 - 9"
    and run: "run sh (Board_init cols0 rows0 mines) as = Inr b"
    and un: "\<not> mines_placed b" and inb: "is_inbounds b c r"
  shows "\<exists>b'. reveal sh b c r = Inr b' \<and> mines_placed b' \<and> int (mine_total b') = mines \<and>
           \<not> is_mine (cell_state b' (c, r)) \<and>
           (\<forall>q\<in>set (neighbors b' c r). \<not> is_mine (cell_state b' q))"
proof -
  from reachable_between_calls[OF sh cfg run] have inv: "board_inv b"
    by (simp add: between_calls_def)
  from board_inv_place[OF inv un inb sh] obtain b1 where
    b1: "place_mines sh b c r = Inr b1" "board_inv b1" "mines_placed b1"
      "keeps b (b1\<lparr>mines_placed := mines_placed b\<rparr>)"
      "\<not> is_mine (cell_state b1 (c, r))" "\<forall>q\<in>set (neighbors b c r). \<not> is_mine (cell_state b1 q)"
    by blast
  from b1(4) have f: "cols b1 = cols b" "rows b1 = rows b" "num_mines b1 = num_mines b"
    by (simp_all add: keeps_def)
  from b1(2) have lay1: "layout b1" by (simp add: board_inv_def)
  have nb1: "neighbors b1 = neighbors b" by (simp add: fun_eq_iff neighbors_def is_inbounds_def f)
  from inb f have p1: "inb b1 (c, r)" by (simp add: inb_def is_inbounds_def)
  from reveal_progress(1)[OF sh b1(2), of c r] obtain b' where
    b': "reveal sh b1 c r = Inr b'" "progress b1 b'" by blast
  with b1(3) have sm: "same_mines b1 b'" and mp: "mines_placed b'" by (simp_all add: progress_def)
  have "reveal sh b c r = Inr b'"
    using reveal_after_place[OF inb un b1(1,3)] b'(1) by simp
  moreover have "int (mine_total b') = mines"
    using same_mines_total[OF sm] b1(2,3) reachable_config(3)[OF sh cfg run] f
    by (simp add: board_inv_def)
  moreover have "\<not> is_mine (cell_state b' (c, r))"
    using same_mines_coord(1)[OF sm lay1 p1] b1(5) by simp
  moreover have "\<forall>q\<in>set (neighbors b' c r). \<not> is_mine (cell_state b' q)"
  proof
    fix q assume "q \<in> set (neighbors b' c r)"
    then have q: "q \<in> set (neighbors b c r)" by (simp add: same_mines_dims[OF sm] nb1)
    then have "inb b1 q" using neighbors_inb[of q b1 c r] by (simp add: nb1)
    from same_mines_coord(1)[OF sm lay1 this] b1(6) q show "\<not> is_mine (cell_state b' q)" by simp
  qed
  ultimately show ?thesis using mp by blast
qed

theorem first_click_placement_witness:
  "mines_placed (row10 [Reveal 0 0]) \<and> mine_total (row10 [Reveal 0 0]) = 1 \<and>
   \<not> is_mine (cell_state (row10 [Reveal 0 0]) (0, 0)) \<and>
   \<not> is_mine (cell_state (row10 [Reveal 0 0]) (1, 0))"
proof -
  let ?b = "Board_init 10 1 1"
  have r: "run keep_order ?b [] = Inr ?b" by simp
  have u: "\<not> mines_placed ?b" by code_simp
  have i: "is_inbounds ?b 0 0" by code_simp
  from first_click_placement[OF mset_keep_order _ _ r u i] obtain b' where
    b': "reveal keep_order ?b 0 0 = Inr b'" "mines_placed b'" "int (mine_total b') = 1"
      "\<not> is_mine (cell_state b' (0, 0))" "\<forall>q\<in>set (neighbors b' 0 0). \<not> is_mine (cell_state b' q)"
    by auto
  from b'(1) have e: "row10 [Reveal 0 0] = b'" by simp
  have "(1, 0) \<in> set (neighbors (row10 [Reveal 0 0]) 0 0)" by code_simp
  with b'(5) e have "\<not> is_mine (cell_state b' (1, 0))" by blast
  with b' e show ?thesis by simp
qed

text \<open>
  C4, as the code has it. On every board reachable from one constructed with
  \<open>0 \<le> mines \<le> cols * rows - 9\<close>, \<open>revealed_count\<close> is at most the number of revealed
  cells, and equal to it as long as \<open>game_over\<close> is false. The loss sweep reveals the
  other mines without counting them, so after a loss with two or more mines the counter is
  smaller.
\<close>

theorem revealed_count_until_loss:
  assumes "\<And>xs. mset (sh xs) = mset xs"
    and "0 \<le> mines" "mines \<le> cols0 * rows0 - 9"
    and "run sh (Board_init cols0 rows0 mines) as = Inr b"
  shows "revealed_count b \<le> int (revealed_total b) \<and>
         (\<not> game_over b \<longrightarrow> revealed_count b = int (revealed_total b))"
  using reachable_between_calls[OF assms]
  by (simp add: between_calls_def board_inv_def)

theorem revealed_count_until_loss_witness:
  "\<not> game_over (row10 [Reveal 0 0]) \<and> revealed_count (row10 [Reveal 0 0]) = 2 \<and>
   revealed_total (row10 [Reveal 0 0]) = 2"
proof -
  have r: "run keep_order (Board_init 10 1 1) [Reveal 0 0] = Inr (row10 [Reveal 0 0])"
    by code_simp
  have g: "\<not> game_over (row10 [Reveal 0 0])" by code_simp
  have t: "revealed_total (row10 [Reveal 0 0]) = 2" by code_simp
  from revealed_count_until_loss[OF mset_keep_order _ _ r] g t show ?thesis by simp
qed

text \<open>
  The claim as stated fails on the board of eleven columns and one row with two mines,
  which the shuffle puts at columns 2 and 3: after the first click and a click on the mine
  at column 2, four cells are revealed and the counter is 3.
\<close>

theorem revealed_count_counterexample:
  "\<not> isl (run keep_order (Board_init 11 1 2) [Reveal 0 0, Reveal 2 0]) \<and>
   revealed_count (row11 [Reveal 0 0, Reveal 2 0]) = 3 \<and>
   revealed_total (row11 [Reveal 0 0, Reveal 2 0]) = 4"
  by code_simp

text \<open>
  C5. On every reachable board whose mines are placed, every cell without a mine has
  \<open>adjacent\<close> equal to the number of its in-bounds neighbours that hold a mine. This holds
  for every configuration of columns, rows and mines.
\<close>

theorem adjacency_correct:
  assumes "\<And>xs. mset (sh xs) = mset xs"
    and "run sh (Board_init cols0 rows0 mines) as = Inr b"
    and "mines_placed b"
  shows "\<forall>q\<in>set (all_positions b).
           \<not> is_mine (cell_state b q) \<longrightarrow> adjacent (cell_state b q) = int (mines_around b q)"
proof -
  from placed_ok_run[OF assms(1) placed_ok_init, of cols0 rows0 mines as] assms(2)
  have "placed_ok b" by simp
  with assms(3) show ?thesis by (simp add: placed_ok_def adjacency_ok_def)
qed

theorem adjacency_correct_witness:
  "mines_placed (row10 [Reveal 0 0]) \<and>
   \<not> is_mine (cell_state (row10 [Reveal 0 0]) (1, 0)) \<and>
   adjacent (cell_state (row10 [Reveal 0 0]) (1, 0)) = 1 \<and>
   mines_around (row10 [Reveal 0 0]) (1, 0) = 1"
proof -
  let ?b = "row10 [Reveal 0 0]"
  have r: "run keep_order (Board_init 10 1 1) [Reveal 0 0] = Inr ?b" by code_simp
  have p: "mines_placed ?b" by code_simp
  have q: "(1, 0) \<in> set (all_positions ?b)" by code_simp
  have m: "\<not> is_mine (cell_state ?b (1, 0))" by code_simp
  have n: "mines_around ?b (1, 0) = 1" by code_simp
  from adjacency_correct[of keep_order, OF mset_keep_order r p] q m
  have "adjacent (cell_state ?b (1, 0)) = int (mines_around ?b (1, 0))" by simp
  with p m n show ?thesis by simp
qed

text \<open>
  C6. On a board reachable from one constructed with \<open>0 \<le> mines \<le> cols * rows - 9\<close>, with
  the mines placed and neither \<open>game_over\<close> nor \<open>win\<close> set, \<^verbatim>\<open>reveal\<close> on an in-bounds,
  unrevealed, unflagged mine returns a board with \<open>game_over\<close> true and every mine
  revealed. Nothing is propagated: every cell without a mine is as it was; the win check is
  not run: \<open>win\<close> is still false. And \<open>win\<close> is false after every later run of calls.
\<close>

theorem loss_condition:
  assumes sh: "\<And>xs. mset (sh xs) = mset xs"
    and cfg: "0 \<le> mines" "mines \<le> cols0 * rows0 - 9"
    and run: "run sh (Board_init cols0 rows0 mines) as = Inr b"
    and st: "mines_placed b" "\<not> game_over b" "\<not> win b"
    and cell: "is_inbounds b c r" "is_mine (cell_state b (c, r))"
      "\<not> is_revealed (cell_state b (c, r))" "\<not> is_flagged (cell_state b (c, r))"
  shows "\<exists>b'. reveal sh b c r = Inr b' \<and> game_over b' \<and> \<not> win b' \<and>
           (\<forall>cell\<in>set (cells b'). is_mine (state cell) \<longrightarrow> is_revealed (state cell)) \<and>
           (\<forall>k<length (cells b). \<not> is_mine (state (cells b ! k)) \<longrightarrow> cells b' ! k = cells b ! k) \<and>
           mines_of b' = mines_of b \<and> revealed_count b' = revealed_count b + 1 \<and>
           (\<forall>as' b''. run sh b' as' = Inr b'' \<longrightarrow> game_over b'' \<and> \<not> win b'')"
proof -
  let ?k = "pos b (c, r)"
  let ?b' = "reveal_all_mines ((mark_revealed b ?k)\<lparr>game_over := True\<rparr>)"
  from reachable_between_calls[OF sh cfg run] have bc: "between_calls b" .
  then have lay: "layout b" by (simp add: between_calls_def board_inv_def)
  from cell(1) have lt: "?k < length (cells b)" using lay by (simp add: pos_less inb_def)
  have res: "reveal sh b c r = Inr ?b'"
    using lay st(1) cell(1,3,4,2) by (rule reveal_mine)
  have mine_k: "is_mine (state (cells b ! ?k))" using cell(2) by (simp add: cell_state_def)
  have "\<forall>cell\<in>set (cells ?b'). is_mine (state cell) \<longrightarrow> is_revealed (state cell)"
  proof (intro ballI impI)
    fix cell assume "cell \<in> set (cells ?b')" and m: "is_mine (state cell)"
    then obtain j where j: "j < length (cells b)" "cell = cells ?b' ! j"
      by (auto simp: in_set_conv_nth)
    with nth_cells_lose(1)[OF lt j(1)] m show "is_revealed (state cell)"
      by (auto split: if_splits)
  qed
  moreover have "\<forall>j<length (cells b). \<not> is_mine (state (cells b ! j)) \<longrightarrow> cells ?b' ! j = cells b ! j"
    using nth_cells_lose(2)[OF lt] mine_k by auto
  moreover have "\<forall>as' b''. run sh ?b' as' = Inr b'' \<longrightarrow> game_over b'' \<and> \<not> win b''"
  proof (intro allI impI)
    fix as' b'' assume later: "run sh ?b' as' = Inr b''"
    from between_calls_step[OF sh bc, of "Reveal c r"] res have "between_calls ?b'" by simp
    from run_progress[OF sh this later] st(3) show "game_over b'' \<and> \<not> win b''"
      by (simp add: progress_def)
  qed
  ultimately show ?thesis using res st(3) by simp
qed

theorem loss_condition_witness:
  "reveal keep_order (row11 [Reveal 0 0]) 2 0 = Inr (row11 [Reveal 0 0, Reveal 2 0]) \<and>
   game_over (row11 [Reveal 0 0, Reveal 2 0]) \<and> \<not> win (row11 [Reveal 0 0, Reveal 2 0]) \<and>
   is_mine (state (cells (row11 [Reveal 0 0, Reveal 2 0]) ! 3)) \<and>
   is_revealed (state (cells (row11 [Reveal 0 0, Reveal 2 0]) ! 3)) \<and>
   \<not> win (row11 [Reveal 0 0, Reveal 2 0, Reveal 10 0])"
proof -
  let ?b = "row11 [Reveal 0 0]"
  let ?b' = "row11 [Reveal 0 0, Reveal 2 0]"
  have r: "run keep_order (Board_init 11 1 2) [Reveal 0 0] = Inr ?b" by code_simp
  have s: "mines_placed ?b" "\<not> game_over ?b" "\<not> win ?b" by code_simp+
  have c: "is_inbounds ?b 2 0" "is_mine (cell_state ?b (2, 0))"
    "\<not> is_revealed (cell_state ?b (2, 0))" "\<not> is_flagged (cell_state ?b (2, 0))" by code_simp+
  have e: "reveal keep_order ?b 2 0 = Inr ?b'" by code_simp
  have l: "run keep_order ?b' [Reveal 10 0] = Inr (row11 [Reveal 0 0, Reveal 2 0, Reveal 10 0])"
    by code_simp
  have m: "cells ?b' ! 3 \<in> set (cells ?b')" "is_mine (state (cells ?b' ! 3))" by code_simp+
  have cfg: "(0::int) \<le> 2" "(2::int) \<le> 11 * 1 - 9" by simp_all
  from loss_condition[OF mset_keep_order cfg r s c] obtain b' where
    b': "reveal keep_order ?b 2 0 = Inr b'" "game_over b'" "\<not> win b'"
      "\<forall>cell\<in>set (cells b'). is_mine (state cell) \<longrightarrow> is_revealed (state cell)"
      "\<forall>as' b''. run keep_order b' as' = Inr b'' \<longrightarrow> game_over b'' \<and> \<not> win b''"
    by blast
  from b'(1) have eq: "b' = ?b'" unfolding e by simp
  from b'(5) l have "\<not> win (row11 [Reveal 0 0, Reveal 2 0, Reveal 10 0])"
    unfolding eq by blast
  moreover from b'(4) m have "is_revealed (state (cells ?b' ! 3))" unfolding eq by blast
  ultimately show ?thesis using e b'(2,3) m(2) unfolding eq by blast
qed

text \<open>
  C7. On a board reachable from one constructed with \<open>0 \<le> mines \<le> cols * rows - 9\<close>, when
  \<^verbatim>\<open>reveal\<close> returns with \<open>revealed_count = cols * rows - num_mines\<close> and \<open>game_over\<close>
  false, \<open>win\<close> is true and every cell without a mine is revealed.
\<close>

theorem win_condition:
  assumes sh: "\<And>xs. mset (sh xs) = mset xs"
    and cfg: "0 \<le> mines" "mines \<le> cols0 * rows0 - 9"
    and run: "run sh (Board_init cols0 rows0 mines) as = Inr b"
    and res: "reveal sh b c r = Inr b'"
    and cnt: "revealed_count b' = cols b' * rows b' - num_mines b'" and go: "\<not> game_over b'"
  shows "win b' \<and> (\<forall>cell\<in>set (cells b'). \<not> is_mine (state cell) \<longrightarrow> is_revealed (state cell))"
proof -
  from between_calls_step[OF sh reachable_between_calls[OF sh cfg run], of "Reveal c r"] res
  have "between_calls b'" by simp
  then have "board_inv b'" "settled b'" by (simp_all add: between_calls_def)
  with all_safe_revealed(2)[OF this(1) cnt go] cnt go show ?thesis by (simp add: settled_def)
qed

theorem win_condition_witness:
  "revealed_count (row10_rev [Reveal 0 0]) = 9 \<and> \<not> game_over (row10_rev [Reveal 0 0]) \<and>
   win (row10_rev [Reveal 0 0]) \<and> \<not> is_mine (state (cells (row10_rev [Reveal 0 0]) ! 8)) \<and>
   is_revealed (state (cells (row10_rev [Reveal 0 0]) ! 8))"
proof -
  let ?b = "Board_init 10 1 1"
  let ?b' = "row10_rev [Reveal 0 0]"
  have p: "mset (rev xs) = mset xs" for xs :: "(int \<times> int) list" by simp
  have r: "run rev ?b [] = Inr ?b" by simp
  have s: "reveal rev ?b 0 0 = Inr ?b'" by code_simp
  have c: "revealed_count ?b' = cols ?b' * rows ?b' - num_mines ?b'" by code_simp
  have n: "revealed_count ?b' = 9" by code_simp
  have g: "\<not> game_over ?b'" by code_simp
  have m: "\<not> is_mine (state (cells ?b' ! 8))" by code_simp
  have l: "cells ?b' ! 8 \<in> set (cells ?b')" by code_simp
  from win_condition[OF p _ _ r s c g] l m n g show ?thesis by auto
qed



text \<open>
  C9. On a board reachable from one constructed with \<open>0 \<le> mines \<le> cols * rows - 9\<close>,
  \<^verbatim>\<open>toggle_flag\<close> returns the board unchanged when the coordinate is out of bounds or the
  cell is revealed. Otherwise it returns the board with \<open>is_flagged\<close> of that one cell
  inverted and nothing else changed; toggling the same cell again returns the board it
  started from, and \<open>flagged_count\<close> moves by one and back.
\<close>

theorem toggle_flag_frame:
  assumes sh: "\<And>xs. mset (sh xs) = mset xs"
    and cfg: "0 \<le> mines" "mines \<le> cols0 * rows0 - 9"
    and run: "run sh (Board_init cols0 rows0 mines) as = Inr b"
  shows "\<exists>b'. toggle_flag b c r = Inr b' \<and>
     (if is_inbounds b c r \<and> \<not> is_revealed (cell_state b (c, r))
      then b' = b\<lparr>cells := (cells b)[pos b (c, r) :=
                    (cells b ! pos b (c, r))\<lparr>state := (cell_state b (c, r))
                       \<lparr>is_flagged := \<not> is_flagged (cell_state b (c, r))\<rparr>\<rparr>]\<rparr> \<and>
           toggle_flag b' c r = Inr b \<and>
           flagged_count b' =
             flagged_count b + (if is_flagged (cell_state b (c, r)) then - 1 else 1)
      else b' = b)"
proof (cases "is_inbounds b c r \<and> \<not> is_revealed (cell_state b (c, r))")
  case False
  from reachable_between_calls[OF sh cfg run] have "board_inv b" "settled b"
    by (simp_all add: between_calls_def)
  from toggle_flag_exact[OF this, of c r] False show ?thesis by auto
next
  case True
  let ?k = "pos b (c, r)"
  let ?b' = "flip_flag b ?k"
  from reachable_between_calls[OF sh cfg run] have inv: "board_inv b" and st: "settled b"
    by (simp_all add: between_calls_def)
  then have lay: "layout b" by (simp add: board_inv_def)
  from True have lt: "?k < length (cells b)" using lay by (simp add: pos_less inb_def)
  have t1: "toggle_flag b c r = Inr ?b'"
    using toggle_flag_exact[OF inv st, of c r] True by simp
  have inv': "board_inv ?b'" "settled ?b'"
    using inv st by (simp_all add: board_inv_flip_flag settled_flip_flag)
  have "is_inbounds ?b' c r" using True by (simp add: is_inbounds_def)
  moreover have "pos ?b' (c, r) = ?k" by (simp add: pos_def index_def)
  moreover have "\<not> is_revealed (cell_state ?b' (c, r))"
    using True lt by (simp add: cell_state_def flip_flag_def state_modify_state pos_def index_def)
  ultimately have t2: "toggle_flag ?b' c r = Inr b"
    using toggle_flag_exact[OF inv', of c r] flip_flag_twice[OF lt] by simp
  have "?b' = b\<lparr>cells := (cells b)[?k := (cells b ! ?k)\<lparr>state := (cell_state b (c, r))
                       \<lparr>is_flagged := \<not> is_flagged (cell_state b (c, r))\<rparr>\<rparr>]\<rparr>"
    by (simp add: flip_flag_def modify_state_def cell_state_def)
  moreover have "flagged_count ?b' =
      flagged_count b + (if is_flagged (cell_state b (c, r)) then - 1 else 1)"
    using flagged_count_flip_flag[OF lt] by (simp add: cell_state_def)
  ultimately show ?thesis using t1 t2 True by simp
qed

theorem toggle_flag_frame_witness:
  "toggle_flag (row10 [Reveal 0 0]) 5 0 = Inr (row10 [Reveal 0 0, ToggleFlag 5 0]) \<and>
   toggle_flag (row10 [Reveal 0 0, ToggleFlag 5 0]) 5 0 = Inr (row10 [Reveal 0 0]) \<and>
   flagged_count (row10 [Reveal 0 0]) = 0 \<and>
   flagged_count (row10 [Reveal 0 0, ToggleFlag 5 0]) = 1"
proof -
  let ?b = "row10 [Reveal 0 0]"
  have r: "run keep_order (Board_init 10 1 1) [Reveal 0 0] = Inr ?b" by code_simp
  have i: "is_inbounds ?b 5 0" by code_simp
  have u: "\<not> is_revealed (cell_state ?b (5, 0))" by code_simp
  have f: "\<not> is_flagged (cell_state ?b (5, 0))" by code_simp
  have n: "flagged_count ?b = 0" by code_simp
  have t: "toggle_flag ?b 5 0 = Inr (row10 [Reveal 0 0, ToggleFlag 5 0])" by code_simp
  from toggle_flag_frame[OF mset_keep_order _ _ r, of 5 0] i u f t n show ?thesis by auto
qed

text \<open>
  C10. Under the same conditions the loss leaves every \<open>is_flagged\<close> as it was, so a mine
  that was flagged is afterwards both revealed and flagged.
\<close>

theorem flags_survive_loss:
  assumes sh: "\<And>xs. mset (sh xs) = mset xs"
    and cfg: "0 \<le> mines" "mines \<le> cols0 * rows0 - 9"
    and run: "run sh (Board_init cols0 rows0 mines) as = Inr b"
    and st: "mines_placed b"
    and cell: "is_inbounds b c r" "is_mine (cell_state b (c, r))"
      "\<not> is_revealed (cell_state b (c, r))" "\<not> is_flagged (cell_state b (c, r))"
  shows "\<exists>b'. reveal sh b c r = Inr b' \<and> game_over b' \<and> flags_of b' = flags_of b \<and>
           (\<forall>k<length (cells b).
              is_mine (state (cells b ! k)) \<and> is_flagged (state (cells b ! k)) \<longrightarrow>
              is_revealed (state (cells b' ! k)) \<and> is_flagged (state (cells b' ! k)))"
proof -
  let ?k = "pos b (c, r)"
  let ?b' = "reveal_all_mines ((mark_revealed b ?k)\<lparr>game_over := True\<rparr>)"
  from reachable_between_calls[OF sh cfg run] have lay: "layout b"
    by (simp add: between_calls_def board_inv_def)
  from cell(1) have lt: "?k < length (cells b)" using lay by (simp add: pos_less inb_def)
  have "reveal sh b c r = Inr ?b'"
    using lay st cell(1,3,4,2) by (rule reveal_mine)
  moreover have "\<forall>j<length (cells b).
              is_mine (state (cells b ! j)) \<and> is_flagged (state (cells b ! j)) \<longrightarrow>
              is_revealed (state (cells ?b' ! j)) \<and> is_flagged (state (cells ?b' ! j))"
    using nth_cells_lose(1)[OF lt] by simp
  ultimately show ?thesis by simp
qed

theorem flags_survive_loss_witness:
  "game_over (row11 [Reveal 0 0, ToggleFlag 3 0, Reveal 2 0]) \<and>
   is_mine (state (cells (row11 [Reveal 0 0, ToggleFlag 3 0, Reveal 2 0]) ! 3)) \<and>
   is_revealed (state (cells (row11 [Reveal 0 0, ToggleFlag 3 0, Reveal 2 0]) ! 3)) \<and>
   is_flagged (state (cells (row11 [Reveal 0 0, ToggleFlag 3 0, Reveal 2 0]) ! 3))"
proof -
  let ?b = "row11 [Reveal 0 0, ToggleFlag 3 0]"
  let ?b' = "row11 [Reveal 0 0, ToggleFlag 3 0, Reveal 2 0]"
  have r: "run keep_order (Board_init 11 1 2) [Reveal 0 0, ToggleFlag 3 0] = Inr ?b"
    by code_simp
  have s: "mines_placed ?b" by code_simp
  have c: "is_inbounds ?b 2 0" "is_mine (cell_state ?b (2, 0))"
    "\<not> is_revealed (cell_state ?b (2, 0))" "\<not> is_flagged (cell_state ?b (2, 0))" by code_simp+
  have e: "reveal keep_order ?b 2 0 = Inr ?b'" by code_simp
  have m: "3 < length (cells ?b)" "is_mine (state (cells ?b ! 3))"
    "is_flagged (state (cells ?b ! 3))" "is_mine (state (cells ?b' ! 3))" by code_simp+
  from flags_survive_loss[OF mset_keep_order _ _ r s c] e m show ?thesis by auto
qed

end
